theory Spec2Isabelle
  imports Main "HOL-Library.Word" "HOL-Library.Signed_Division" "HOL-Library.Multiset"
begin

section \<open>The hash table of hashtable.c\<close>

text \<open>
  A shallow embedding of \<^verbatim>\<open>hashtable.c\<close>: a fixed array of 100 bucket heads, each the
  head of a singly linked chain of nodes that live in malloc'ed memory.

  \<^item> A \<^verbatim>\<open>char\<close> is an 8-bit word, an \<^verbatim>\<open>int\<close> that is only stored and returned (node
    values, return codes) a 32-bit word. The hash is computed over the mathematical
    integers; \<open>hash_loop_bounds\<close> shows that the sum stays far inside the range of a
    32-bit \<^verbatim>\<open>int\<close>, so no wrap-around is lost.
  \<^item> Whether plain \<^verbatim>\<open>char\<close> is signed is implementation-defined in C (it is signed
    with gcc on x86, unsigned with gcc on ARM). The functions that read a \<^verbatim>\<open>char\<close> as a
    number take that choice as their first argument \<open>sc\<close> (\<open>True\<close>: signed).
  \<^item> A pointer to a node is an \<open>addr option\<close>, \<open>None\<close> for \<^verbatim>\<open>NULL\<close>. The nodes live in
    a store \<open>heap\<close>, a map from addresses to node records. The table itself is passed
    and returned as a value.
  \<^item> A string argument \<^verbatim>\<open>char *key\<close> is the list of the bytes it points to, with the
    terminating 0 implied after the last element; a 0 inside the list ends the string
    there, as it does in C.
  \<^item> The pointer \<^verbatim>\<open>malloc\<close> returns is an argument of the functions that allocate:
    \<open>None\<close> when it returns \<^verbatim>\<open>NULL\<close>, \<open>Some a\<close> for a block at \<open>a\<close>. That the block
    is not in use already is malloc's contract and a hypothesis of the theorems.
  \<^item> Undefined behaviour (an index outside the array, a dereference of \<^verbatim>\<open>NULL\<close> or of
    an address that holds no node) is the value \<open>Inl\<close> of a \<open>fault\<close>. The loops that
    follow \<^verbatim>\<open>next\<close> links may run forever on a cyclic chain: they are defined with
    \<^theory_text>\<open>partial_function (option)\<close>, and not returning is the value \<open>None\<close>.
  \<^item> The \<^verbatim>\<open>debugf\<close> diagnostics are left out: the macro expands to nothing unless
    \<^verbatim>\<open>DEBUG\<close> is defined, and what it prints goes to stderr only.
    \<^verbatim>\<open>hashtable_destroy\<close>, \<^verbatim>\<open>hashtable_node_free\<close> and \<^verbatim>\<open>hashtable_node_init\<close> are not
    modelled; no statement below is about them.
\<close>

subsection \<open>Data\<close>

type_synonym char_t = "8 word"
type_synonym int_t = "32 word"
type_synonym addr = nat

abbreviation HASHTABLE_NODE_COUNT :: nat where
  "HASHTABLE_NODE_COUNT \<equiv> 100"

abbreviation HASHTABLE_KEY_SIZE :: nat where
  "HASHTABLE_KEY_SIZE \<equiv> 32"

record hashtable_node_t =
  node_next :: "addr option"
  node_key :: "char_t list"
  node_value :: int_t

type_synonym heap = "addr \<rightharpoonup> hashtable_node_t"

record hashtable_t =
  array :: "addr option list"

datatype fault = NullPointer | DanglingPointer | OutOfBounds

type_synonym 'a result = "fault + 'a"

subsection \<open>The functions of string.h the source calls\<close>

text \<open>\<^verbatim>\<open>s[i]\<close> for a string argument: the terminator stands after the last element.\<close>

definition char_at :: "char_t list \<Rightarrow> nat \<Rightarrow> char_t" where
  "char_at s i = (if i < length s then s ! i else 0)"

text \<open>\<^verbatim>\<open>strnlen(s, n)\<close>: the number of bytes before the first 0, at most \<open>n\<close>.\<close>

fun strnlen :: "char_t list \<Rightarrow> nat \<Rightarrow> nat" where
  "strnlen s 0 = 0"
| "strnlen [] (Suc n) = 0"
| "strnlen (c # cs) (Suc n) = (if c = 0 then 0 else Suc (strnlen cs n))"

text \<open>
  \<^verbatim>\<open>strncpy(dst, src, n)\<close>, as the \<open>n\<close> bytes it writes to \<^verbatim>\<open>dst\<close>: the bytes of
  \<^verbatim>\<open>src\<close> up to its terminator, then zeros up to \<open>n\<close>; when \<^verbatim>\<open>src\<close> has \<open>n\<close> bytes or
  more before its terminator, the first \<open>n\<close> of them and no terminator.
\<close>

fun strncpy :: "char_t list \<Rightarrow> nat \<Rightarrow> char_t list" where
  "strncpy s 0 = []"
| "strncpy [] (Suc n) = replicate (Suc n) 0"
| "strncpy (c # cs) (Suc n) = (if c = 0 then replicate (Suc n) 0 else c # strncpy cs n)"

text \<open>
  \<^verbatim>\<open>strncmp(a, b, n)\<close>: compares at most \<open>n\<close> bytes as unsigned chars and stops after a
  terminator; the result is negative, zero or positive.
\<close>

fun strncmp :: "char_t list \<Rightarrow> char_t list \<Rightarrow> nat \<Rightarrow> int" where
  "strncmp a b 0 = 0"
| "strncmp a b (Suc n) =
     (if char_at a 0 \<noteq> char_at b 0 then (if char_at a 0 < char_at b 0 then - 1 else 1)
      else if char_at a 0 = 0 then 0
      else strncmp (tl a) (tl b) n)"

subsection \<open>Nodes\<close>

text \<open>\<^verbatim>\<open>hashtable_node_create\<close>; \<open>aux\<close> is what \<^verbatim>\<open>malloc\<close> returned.\<close>

definition hashtable_node_create ::
  "addr option \<Rightarrow> char_t list \<Rightarrow> int_t \<Rightarrow> heap \<Rightarrow> addr option \<times> heap" where
  "hashtable_node_create aux key v h =
     (case aux of
        None \<Rightarrow> (None, h)
      | Some a \<Rightarrow>
          (Some a,
           h(a \<mapsto> \<lparr>node_next = None, node_key = strncpy key HASHTABLE_KEY_SIZE,
                    node_value = v\<rparr>)))"

text \<open>
  The loop of \<^verbatim>\<open>hashtable_node_insert\<close>:
  \<^verbatim>\<open>for(; current->next != NULL; current = current->next);\<close> It returns the last
  \<^verbatim>\<open>current\<close>.
\<close>

partial_function (option) insert_loop :: "heap \<Rightarrow> addr \<Rightarrow> addr result option" where
  "insert_loop h current =
     (case h current of
        None \<Rightarrow> Some (Inl DanglingPointer)
      | Some n \<Rightarrow>
          (case node_next n of
             None \<Rightarrow> Some (Inr current)
           | Some nx \<Rightarrow> insert_loop h nx))"

text \<open>A store to a field through a pointer that must hold a node.\<close>

definition store :: "heap \<Rightarrow> addr \<Rightarrow> (hashtable_node_t \<Rightarrow> hashtable_node_t) \<Rightarrow> heap result" where
  "store h a f = (case h a of None \<Rightarrow> Inl DanglingPointer | Some n \<Rightarrow> Inr (h(a \<mapsto> f n)))"

definition hashtable_node_insert :: "heap \<Rightarrow> addr option \<Rightarrow> addr option \<Rightarrow> heap result option" where
  "hashtable_node_insert h parent child =
     (case parent of
        None \<Rightarrow> Some (Inl NullPointer)
      | Some p \<Rightarrow>
          (case h p of
             None \<Rightarrow> Some (Inl DanglingPointer)
           | Some pn \<Rightarrow>
               (case node_next pn of
                  None \<Rightarrow> Some (Inr (h(p \<mapsto> pn\<lparr>node_next := child\<rparr>)))
                | Some c \<Rightarrow>
                    (case insert_loop h c of
                       None \<Rightarrow> None
                     | Some (Inl e) \<Rightarrow> Some (Inl e)
                     | Some (Inr current) \<Rightarrow>
                         (case store h current (\<lambda>n. n\<lparr>node_next := child\<rparr>) of
                            Inl e \<Rightarrow> Some (Inl e)
                          | Inr h1 \<Rightarrow>
                              (case child of
                                 None \<Rightarrow> Some (Inl NullPointer)
                               | Some ch \<Rightarrow> Some (store h1 ch (\<lambda>n. n\<lparr>node_next := None\<rparr>))))))))"

text \<open>The loop of \<^verbatim>\<open>hashtable_node_find_by_key\<close>, from \<^verbatim>\<open>current\<close> on.\<close>

partial_function (option) find_loop ::
  "heap \<Rightarrow> addr option \<Rightarrow> char_t list \<Rightarrow> addr option result option" where
  "find_loop h current key =
     (case current of
        None \<Rightarrow> Some (Inr None)
      | Some a \<Rightarrow>
          (case h a of
             None \<Rightarrow> Some (Inl DanglingPointer)
           | Some n \<Rightarrow>
               if strncmp (node_key n) key HASHTABLE_KEY_SIZE = 0 then Some (Inr (Some a))
               else find_loop h (node_next n) key))"

definition hashtable_node_find_by_key ::
  "heap \<Rightarrow> addr option \<Rightarrow> char_t list \<Rightarrow> addr option result option" where
  "hashtable_node_find_by_key h node key =
     (if strnlen key HASHTABLE_KEY_SIZE \<ge> HASHTABLE_KEY_SIZE then Some (Inr None)
      else find_loop h node key)"

subsection \<open>The table\<close>

text \<open>The value of a \<^verbatim>\<open>char\<close> in an \<^verbatim>\<open>int\<close> expression.\<close>

definition char_to_int :: "bool \<Rightarrow> char_t \<Rightarrow> int" where
  "char_to_int sc c = (if sc then sint c else uint c)"

text \<open>
  The loop of \<^verbatim>\<open>calculate_hash\<close>:
  \<^verbatim>\<open>for(int i = 0; key[i] && i < HASHTABLE_KEY_SIZE; ++i) sum += key[i];\<close>
\<close>

function hash_loop :: "bool \<Rightarrow> char_t list \<Rightarrow> nat \<Rightarrow> int \<Rightarrow> int" where
  "hash_loop sc key i sum_i =
     (if char_at key i \<noteq> 0 \<and> i < HASHTABLE_KEY_SIZE
      then hash_loop sc key (i + 1) (sum_i + char_to_int sc (char_at key i))
      else sum_i)"
  by pat_completeness auto
termination
  by (relation "measure (\<lambda>(sc, key, i, sum_i). HASHTABLE_KEY_SIZE - i)") auto

declare hash_loop.simps [simp del]

text \<open>C's \<^verbatim>\<open>%\<close> truncates towards zero: the remainder has the sign of the sum.\<close>

definition calculate_hash :: "bool \<Rightarrow> char_t list \<Rightarrow> int" where
  "calculate_hash sc key = hash_loop sc key 0 0 smod int HASHTABLE_NODE_COUNT"

text \<open>\<^verbatim>\<open>hashtable_create\<close>; \<open>ok\<close> says whether \<^verbatim>\<open>malloc\<close> returned a block.\<close>

definition hashtable_create :: "bool \<Rightarrow> hashtable_t option" where
  "hashtable_create ok =
     (if ok then Some \<lparr>array = replicate HASHTABLE_NODE_COUNT None\<rparr> else None)"

text \<open>\<^verbatim>\<open>ht->array[hash]\<close>, read: an index outside the array is undefined behaviour.\<close>

definition bucket :: "hashtable_t \<Rightarrow> int \<Rightarrow> addr option result" where
  "bucket ht hash =
     (if 0 \<le> hash \<and> hash < int HASHTABLE_NODE_COUNT \<and> nat hash < length (array ht)
      then Inr (array ht ! nat hash)
      else Inl OutOfBounds)"

text \<open>The loop of \<^verbatim>\<open>hashtable_get\<close>, from \<^verbatim>\<open>current\<close> on.\<close>

partial_function (option) get_loop ::
  "heap \<Rightarrow> addr option \<Rightarrow> char_t list \<Rightarrow> int_t result option" where
  "get_loop h current key =
     (case current of
        None \<Rightarrow> Some (Inr 0)
      | Some a \<Rightarrow>
          (case h a of
             None \<Rightarrow> Some (Inl DanglingPointer)
           | Some n \<Rightarrow>
               if strncmp (node_key n) key HASHTABLE_KEY_SIZE = 0 then Some (Inr (node_value n))
               else get_loop h (node_next n) key))"

definition hashtable_get ::
  "bool \<Rightarrow> heap \<Rightarrow> hashtable_t \<Rightarrow> char_t list \<Rightarrow> int_t result option" where
  "hashtable_get sc h ht key =
     (case bucket ht (calculate_hash sc key) of
        Inl e \<Rightarrow> Some (Inl e)
      | Inr current \<Rightarrow> get_loop h current key)"

text \<open>
  \<^verbatim>\<open>hashtable_set\<close>; \<open>aux\<close> is what \<^verbatim>\<open>malloc\<close> returns inside
  \<^verbatim>\<open>hashtable_node_create\<close>. The result is the return code with the new store and table.
\<close>

definition hashtable_set ::
  "bool \<Rightarrow> addr option \<Rightarrow> heap \<Rightarrow> hashtable_t \<Rightarrow> char_t list \<Rightarrow> int_t \<Rightarrow>
   (int_t \<times> heap \<times> hashtable_t) result option" where
  "hashtable_set sc aux h ht key v =
     (let hash = calculate_hash sc key;
          (node, h1) = hashtable_node_create aux key v h
      in case node of
           None \<Rightarrow> Some (Inr (- 1, h1, ht))
         | Some nd \<Rightarrow>
             (case bucket ht hash of
                Inl e \<Rightarrow> Some (Inl e)
              | Inr None \<Rightarrow>
                  Some (Inr (0, h1, ht\<lparr>array := (array ht)[nat hash := Some nd]\<rparr>))
              | Inr (Some head) \<Rightarrow>
                  (case hashtable_node_find_by_key h1 (Some head) key of
                     None \<Rightarrow> None
                   | Some (Inl e) \<Rightarrow> Some (Inl e)
                   | Some (Inr None) \<Rightarrow>
                       (case hashtable_node_insert h1 (Some head) (Some nd) of
                          None \<Rightarrow> None
                        | Some (Inl e) \<Rightarrow> Some (Inl e)
                        | Some (Inr h2) \<Rightarrow> Some (Inr (0, h2, ht)))
                   | Some (Inr (Some found)) \<Rightarrow>
                       (case store h1 found (\<lambda>n. n\<lparr>node_value := v\<rparr>) of
                          Inl e \<Rightarrow> Some (Inl e)
                        | Inr h2 \<Rightarrow> Some (Inr (0, h2, ht))))))"

subsection \<open>Notions and inputs of the statements\<close>

text \<open>The length of a string: the number of bytes before its terminator.\<close>

definition strlen :: "char_t list \<Rightarrow> nat" where
  "strlen s = length (takeWhile (\<lambda>c. c \<noteq> 0) s)"

text \<open>The first min(length, K) bytes of a key.\<close>

definition key_prefix :: "char_t list \<Rightarrow> char_t list" where
  "key_prefix key = take (min (strlen key) HASHTABLE_KEY_SIZE) key"

text \<open>
  \<open>chain h p as\<close>: from the pointer \<open>p\<close> the \<^verbatim>\<open>next\<close> links of the store \<open>h\<close> lead through
  the nodes at the addresses \<open>as\<close>, in this order, and then to \<^verbatim>\<open>NULL\<close>.
\<close>

fun chain :: "heap \<Rightarrow> addr option \<Rightarrow> addr list \<Rightarrow> bool" where
  "chain h p [] = (p = None)"
| "chain h p (a # as) =
     (p = Some a \<and> (case h a of None \<Rightarrow> False | Some n \<Rightarrow> chain h (node_next n) as))"

text \<open>
  The test both \<^verbatim>\<open>hashtable_get\<close> and \<^verbatim>\<open>hashtable_node_find_by_key\<close> make at a node:
  \<^verbatim>\<open>!strncmp(current->key, key, HASHTABLE_KEY_SIZE)\<close>.
\<close>

definition matches :: "heap \<Rightarrow> char_t list \<Rightarrow> addr \<Rightarrow> bool" where
  "matches h key a =
     (case h a of None \<Rightarrow> False | Some n \<Rightarrow> strncmp (node_key n) key HASHTABLE_KEY_SIZE = 0)"

text \<open>The node \<^verbatim>\<open>hashtable_node_create\<close> writes into the block it allocated.\<close>

definition new_node :: "char_t list \<Rightarrow> int_t \<Rightarrow> hashtable_node_t" where
  "new_node key v = \<lparr>node_next = None, node_key = strncpy key HASHTABLE_KEY_SIZE, node_value = v\<rparr>"

text \<open>The table \<^verbatim>\<open>hashtable_create\<close> returns: every slot is \<^verbatim>\<open>NULL\<close>.\<close>

definition empty_table :: hashtable_t where
  "empty_table = \<lparr>array = replicate HASHTABLE_NODE_COUNT None\<rparr>"

text \<open>The keys of the source's \<^verbatim>\<open>main\<close>: "eric" and "erhd" share bucket 19.\<close>

definition key_eric :: "char_t list" where
  "key_eric = [101, 114, 105, 99]"

definition key_erhd :: "char_t list" where
  "key_erhd = [101, 114, 104, 100]"

text \<open>The table and the store after \<^verbatim>\<open>hashtable_set(ht, "eric", 111)\<close> on the empty table.\<close>

definition eric_table :: hashtable_t where
  "eric_table = empty_table\<lparr>array := (array empty_table)[19 := Some 1]\<rparr>"

definition eric_heap :: heap where
  "eric_heap = [1 \<mapsto> new_node key_eric 111]"

text \<open>
  A caller that makes a sequence of \<^verbatim>\<open>hashtable_set\<close> calls and ignores the return codes,
  as the source's \<^verbatim>\<open>main\<close> does. Each call comes with what \<^verbatim>\<open>malloc\<close> returns in it.
\<close>

fun run_sets ::
  "bool \<Rightarrow> (addr option \<times> char_t list \<times> int_t) list \<Rightarrow> heap \<Rightarrow> hashtable_t \<Rightarrow>
   (heap \<times> hashtable_t) result option" where
  "run_sets sc [] h ht = Some (Inr (h, ht))"
| "run_sets sc ((aux, key, v) # calls) h ht =
     (case hashtable_set sc aux h ht key v of
        None \<Rightarrow> None
      | Some (Inl e) \<Rightarrow> Some (Inl e)
      | Some (Inr (r, h', ht')) \<Rightarrow> run_sets sc calls h' ht')"

text \<open>The blocks \<^verbatim>\<open>malloc\<close> hands out in a sequence of calls.\<close>

fun allocs :: "(addr option \<times> char_t list \<times> int_t) list \<Rightarrow> addr list" where
  "allocs [] = []"
| "allocs ((None, key, v) # calls) = allocs calls"
| "allocs ((Some a, key, v) # calls) = a # allocs calls"

text \<open>The key buffer of the node at an address.\<close>

definition key_of :: "heap \<Rightarrow> addr \<Rightarrow> char_t list" where
  "key_of h a = (case h a of None \<Rightarrow> [] | Some n \<Rightarrow> node_key n)"

text \<open>Every bucket is a chain that ends in \<^verbatim>\<open>NULL\<close>, and no two of its nodes hold the same key.\<close>

definition chains_distinct :: "heap \<Rightarrow> hashtable_t \<Rightarrow> bool" where
  "chains_distinct h ht =
     (\<forall>i<HASHTABLE_NODE_COUNT. \<exists>as. chain h (array ht ! i) as \<and> distinct (map (key_of h) as))"

text \<open>No key is stored in the chains of two buckets.\<close>

definition buckets_share_no_key :: "heap \<Rightarrow> hashtable_t \<Rightarrow> bool" where
  "buckets_share_no_key h ht =
     (\<forall>i<HASHTABLE_NODE_COUNT. \<forall>j<HASHTABLE_NODE_COUNT. \<forall>as bs.
        i \<noteq> j \<longrightarrow> chain h (array ht ! i) as \<longrightarrow> chain h (array ht ! j) bs \<longrightarrow>
        set (map (key_of h) as) \<inter> set (map (key_of h) bs) = {})"

text \<open>
  The invariant of the table: \<open>cs i\<close> lists the nodes of bucket \<open>i\<close>, the chains of two
  buckets share no node, the keys in a chain differ, and the key of every node in bucket
  \<open>i\<close> hashes to \<open>i\<close>.
\<close>

definition table_inv :: "bool \<Rightarrow> heap \<Rightarrow> hashtable_t \<Rightarrow> (nat \<Rightarrow> addr list) \<Rightarrow> bool" where
  "table_inv sc h ht cs =
     (length (array ht) = HASHTABLE_NODE_COUNT \<and>
      (\<forall>i<HASHTABLE_NODE_COUNT. chain h (array ht ! i) (cs i)) \<and>
      (\<forall>i<HASHTABLE_NODE_COUNT. \<forall>j<HASHTABLE_NODE_COUNT. i \<noteq> j \<longrightarrow> set (cs i) \<inter> set (cs j) = {}) \<and>
      (\<forall>i<HASHTABLE_NODE_COUNT. distinct (map (key_of h) (cs i))) \<and>
      (\<forall>i<HASHTABLE_NODE_COUNT. \<forall>a\<in>set (cs i). calculate_hash sc (key_of h a) = int i))"

text \<open>
  A store for \<^verbatim>\<open>hashtable_node_insert\<close>: node 1 has no successor, node 2 points to node
  3, which has none, and node 4 points to node 1.
\<close>

definition insert_heap :: heap where
  "insert_heap =
     [1 \<mapsto> \<lparr>node_next = None, node_key = strncpy [97] HASHTABLE_KEY_SIZE, node_value = 1\<rparr>,
      2 \<mapsto> \<lparr>node_next = Some 3, node_key = strncpy [98] HASHTABLE_KEY_SIZE, node_value = 2\<rparr>,
      3 \<mapsto> \<lparr>node_next = None, node_key = strncpy [99] HASHTABLE_KEY_SIZE, node_value = 3\<rparr>,
      4 \<mapsto> \<lparr>node_next = Some 1, node_key = strncpy [100] HASHTABLE_KEY_SIZE, node_value = 4\<rparr>]"

text \<open>
  The stores after \<^verbatim>\<open>hashtable_node_insert\<close> of node 2 after node 1, and of node 4 after
  node 2, on \<open>insert_heap\<close>.
\<close>

definition insert_heap_after :: heap where
  "insert_heap_after =
     insert_heap(1 \<mapsto> \<lparr>node_next = Some 2, node_key = strncpy [97] HASHTABLE_KEY_SIZE, node_value = 1\<rparr>)"

definition insert_heap_walked :: heap where
  "insert_heap_walked =
     insert_heap
       (3 \<mapsto> \<lparr>node_next = Some 4, node_key = strncpy [99] HASHTABLE_KEY_SIZE, node_value = 3\<rparr>,
        4 \<mapsto> \<lparr>node_next = None, node_key = strncpy [100] HASHTABLE_KEY_SIZE, node_value = 4\<rparr>)"

text \<open>The store after a second \<^verbatim>\<open>hashtable_set(ht, "eric", 222)\<close>: node 2 is allocated.\<close>

definition leak_heap :: heap where
  "leak_heap =
     eric_heap(2 \<mapsto> new_node key_eric 222, 1 \<mapsto> (new_node key_eric 111)\<lparr>node_value := 222\<rparr>)"

text \<open>A key of 33 bytes, and the table and store after \<^verbatim>\<open>hashtable_set\<close> of it with value 7.\<close>

definition long_key :: "char_t list" where
  "long_key = replicate 33 97"

definition long_table :: hashtable_t where
  "long_table = empty_table\<lparr>array := (array empty_table)[4 := Some 1]\<rparr>"

definition long_heap :: heap where
  "long_heap = [1 \<mapsto> new_node long_key 7]"

text \<open>Two sets of the 33-byte key: the store after the second one.\<close>

definition dup_heap :: heap where
  "dup_heap =
     long_heap(2 \<mapsto> new_node long_key 9, 1 \<mapsto> (new_node long_key 7)\<lparr>node_next := Some 2\<rparr>)"

text \<open>The third key of the source's \<^verbatim>\<open>main\<close>, "john", and the calls \<^verbatim>\<open>main\<close> makes.\<close>

definition key_john :: "char_t list" where
  "key_john = [106, 111, 104, 110]"

definition main_calls :: "(addr option \<times> char_t list \<times> int_t) list" where
  "main_calls = [(Some 1, key_eric, 111), (Some 2, key_erhd, 222), (Some 3, key_john, 333)]"

section \<open>Lemmas\<close>

subsection \<open>Strings and the hash\<close>

lemma key_prefix_eq: "key_prefix key = take HASHTABLE_KEY_SIZE (takeWhile (\<lambda>c. c \<noteq> 0) key)"
proof -
  have "take (min (length (takeWhile (\<lambda>c. c \<noteq> 0) key)) 32) key
      = take 32 (take (length (takeWhile (\<lambda>c. c \<noteq> 0) key)) key)"
    by (simp add: min.commute)
  also have "take (length (takeWhile (\<lambda>c. c \<noteq> 0) key)) key = takeWhile (\<lambda>c. c \<noteq> 0) key"
    by (rule takeWhile_eq_take [symmetric])
  finally show ?thesis by (simp add: key_prefix_def strlen_def)
qed

lemma strnlen_eq: "strnlen s n = min (strlen s) n"
  by (induction s n rule: strnlen.induct) (simp_all add: strlen_def)

lemma strncpy_eq:
  "strncpy s n = take n (takeWhile (\<lambda>c. c \<noteq> 0) s) @ replicate (n - strlen s) 0"
  by (induction s n rule: strncpy.induct) (simp_all add: strlen_def)

lemma length_strncpy: "length (strncpy s n) = n"
  by (induction s n rule: strncpy.induct) simp_all

lemma strncmp_strncpy: "strncmp (strncpy k n) k n = 0"
  by (induction k n rule: strncpy.induct) (simp_all add: char_at_def)

lemma hash_loop_eq:
  "hash_loop sc key i s =
     s + sum_list (map (char_to_int sc) (take (HASHTABLE_KEY_SIZE - i) (takeWhile (\<lambda>c. c \<noteq> 0) (drop i key))))"
proof (induction sc key i s rule: hash_loop.induct)
  case (1 sc key i s)
  show ?case
  proof (cases "char_at key i \<noteq> 0 \<and> i < HASHTABLE_KEY_SIZE")
    case True
    then have i: "i < length key" and nz: "key ! i \<noteq> 0" and lt: "i < 32"
      by (auto simp: char_at_def split: if_splits)
    have d: "drop i key = key ! i # drop (Suc i) key"
      using i by (simp add: Cons_nth_drop_Suc)
    have t: "32 - i = Suc (32 - Suc i)" using lt by simp
    have "hash_loop sc key i s = hash_loop sc key (i + 1) (s + char_to_int sc (char_at key i))"
      using True by (subst hash_loop.simps) simp
    also have "\<dots> = s + char_to_int sc (char_at key i) +
        sum_list (map (char_to_int sc) (take (32 - (i + 1)) (takeWhile (\<lambda>c. c \<noteq> 0) (drop (i + 1) key))))"
      using True by (rule "1.IH")
    finally show ?thesis
      using i nz by (simp add: d t char_at_def del: drop_Suc)
  next
    case False
    then have "hash_loop sc key i s = s"
      by (subst hash_loop.simps) auto
    moreover have "take (32 - i) (takeWhile (\<lambda>c. c \<noteq> 0) (drop i key)) = []"
    proof (cases "i < 32")
      case True
      with False have z: "char_at key i = 0" by simp
      show ?thesis
      proof (cases "i < length key")
        case True
        then have "drop i key = key ! i # drop (Suc i) key" by (simp add: Cons_nth_drop_Suc)
        with z True show ?thesis by (simp add: char_at_def)
      next
        case False
        then show ?thesis by simp
      qed
    next
      case False
      then show ?thesis by simp
    qed
    ultimately show ?thesis by (simp only: list.map sum_list.Nil add_0_right)
  qed
qed

lemma hash_sum: "hash_loop sc key 0 0 = sum_list (map (char_to_int sc) (key_prefix key))"
  by (simp add: hash_loop_eq key_prefix_eq)

lemma calculate_hash_eq:
  "calculate_hash sc key = sum_list (map (char_to_int sc) (key_prefix key)) smod 100"
  by (simp add: calculate_hash_def hash_sum)

lemma length_key_prefix: "length (key_prefix key) \<le> HASHTABLE_KEY_SIZE"
  by (simp add: key_prefix_def)

lemma char_to_int_bounds: "- 128 \<le> char_to_int sc c \<and> char_to_int sc c \<le> 255"
proof (cases sc)
  case True
  have "- (2 ^ (LENGTH(8) - 1)) \<le> sint c" by (rule sint_ge)
  moreover have "sint c < 2 ^ (LENGTH(8) - 1)" by (rule sint_lt)
  ultimately show ?thesis using True by (simp add: char_to_int_def)
next
  case False
  have "uint c < 2 ^ LENGTH(8)" by (rule uint_lt2p)
  moreover have "- 128 \<le> uint c" by (rule order_trans [of _ 0]) simp_all
  ultimately show ?thesis using False by (simp add: char_to_int_def)
qed

lemma sum_list_bounds:
  fixes xs :: "int list"
  assumes "\<forall>x\<in>set xs. lo \<le> x \<and> x \<le> hi"
  shows "int (length xs) * lo \<le> sum_list xs \<and> sum_list xs \<le> int (length xs) * hi"
  using assms by (induction xs) (auto simp: algebra_simps)

lemma hash_loop_bounds:
  "- 4096 \<le> hash_loop sc key 0 0 \<and> hash_loop sc key 0 0 \<le> 8160"
proof -
  let ?xs = "map (char_to_int sc) (key_prefix key)"
  have "\<forall>x\<in>set ?xs. - 128 \<le> x \<and> x \<le> 255"
    using char_to_int_bounds by auto
  then have b: "int (length ?xs) * (- 128) \<le> sum_list ?xs \<and> sum_list ?xs \<le> int (length ?xs) * 255"
    by (rule sum_list_bounds)
  have l: "int (length ?xs) \<le> 32" using length_key_prefix [of key] by simp
  have "int (length ?xs) * 128 \<le> 32 * 128" using l by (intro mult_right_mono) simp_all
  moreover have "int (length ?xs) * 255 \<le> 32 * 255" using l by (intro mult_right_mono) simp_all
  ultimately show ?thesis using b by (simp add: hash_sum)
qed

lemma smod_range: "(0::int) \<le> x \<Longrightarrow> 0 \<le> x smod 100 \<and> x smod 100 < 100"
  by (simp add: signed_modulo_int_def sgn_if)

lemma hash_nonneg_sum:
  assumes "\<forall>c\<in>set (key_prefix key). 0 \<le> char_to_int sc c"
  shows "0 \<le> calculate_hash sc key \<and> calculate_hash sc key < 100"
proof -
  have "0 \<le> sum_list (map (char_to_int sc) (key_prefix key))"
    using assms by (intro sum_list_nonneg) auto
  then show ?thesis unfolding calculate_hash_eq by (rule smod_range)
qed

lemma hash_unsigned_range: "0 \<le> calculate_hash False key \<and> calculate_hash False key < 100"
  by (rule hash_nonneg_sum) (simp add: char_to_int_def)

lemma hash_ascii_range:
  assumes "\<forall>c\<in>set (key_prefix key). c < 128"
  shows "0 \<le> calculate_hash sc key \<and> calculate_hash sc key < 100"
proof (rule hash_nonneg_sum, rule ballI)
  fix c assume "c \<in> set (key_prefix key)"
  then have "c < 128" using assms by blast
  then have "uint c < 128" by (simp add: word_less_def)
  moreover have "- (2 ^ 7) \<le> uint c" by (rule order_trans [of _ 0]) simp_all
  ultimately have "signed_take_bit 7 (uint c) = uint c"
    by (intro signed_take_bit_int_eq_self) simp_all
  then have "sint c = uint c"
    by (simp add: sint_uint)
  then show "0 \<le> char_to_int sc c" by (simp add: char_to_int_def)
qed

lemma smod_range_general: "- 100 < (x::int) smod 100 \<and> x smod 100 < 100"
proof -
  have a: "- 100 < x mod 100" by (rule less_le_trans [of _ 0]) simp_all
  have "0 \<le> - x mod 100" by simp
  then have b: "- (- x mod 100) < 100" by linarith
  show ?thesis using a b by (simp add: signed_modulo_int_def sgn_if)
qed

lemma hash_range_general: "- 100 < calculate_hash sc key \<and> calculate_hash sc key < 100"
  unfolding calculate_hash_def by (simp add: smod_range_general)

subsection \<open>Chains in the store\<close>

lemma matches_Some:
  "h a = Some n \<Longrightarrow> matches h key a = (strncmp (node_key n) key HASHTABLE_KEY_SIZE = 0)"
  by (simp add: matches_def)

lemma chain_None [simp]: "chain h None as = (as = [])"
  by (cases as) simp_all

lemma chain_in_heap: "chain h p as \<Longrightarrow> a \<in> set as \<Longrightarrow> \<exists>n. h a = Some n"
  by (induction as arbitrary: p) (auto split: option.splits)

lemma chain_unique: "chain h p as \<Longrightarrow> chain h p bs \<Longrightarrow> as = bs"
proof (induction as arbitrary: p bs)
  case Nil
  then show ?case by simp
next
  case (Cons a as)
  then obtain bs' where "bs = a # bs'" by (cases bs) auto
  with Cons show ?case by (auto split: option.splits)
qed

lemma chain_append:
  "chain h p (as @ bs) \<Longrightarrow> bs \<noteq> [] \<Longrightarrow> chain h (Some (hd bs)) bs"
  by (induction as arbitrary: p) (auto split: option.splits, cases bs, auto)

lemma chain_head_notin_tail:
  assumes "h a = Some n" and "chain h (node_next n) as"
  shows "a \<notin> set as"
proof
  assume "a \<in> set as"
  then obtain xs ys where s: "as = xs @ a # ys" by (auto simp: in_set_conv_decomp)
  with assms(2) have "chain h (Some a) (a # ys)"
    using chain_append [of h "node_next n" xs "a # ys"] by simp
  with assms(1) have "chain h (node_next n) ys" by simp
  with assms(2) have "as = ys" by (rule chain_unique)
  with s show False by simp
qed

lemma chain_distinct: "chain h p as \<Longrightarrow> distinct as"
  by (induction as arbitrary: p) (auto split: option.splits dest: chain_head_notin_tail)

lemma chain_cong:
  assumes "\<forall>a\<in>set as. map_option node_next (h' a) = map_option node_next (h a)"
  shows "chain h' p as = chain h p as"
  using assms
proof (induction as arbitrary: p)
  case Nil
  then show ?case by simp
next
  case (Cons a as)
  then have n: "map_option node_next (h' a) = map_option node_next (h a)"
    and r: "\<And>q. chain h' q as = chain h q as" by simp_all
  show ?case
  proof (cases "h a")
    case None
    with n show ?thesis by simp
  next
    case (Some m)
    with n obtain m' where "h' a = Some m'" "node_next m' = node_next m" by auto
    with Some r show ?thesis by simp
  qed
qed

lemma chain_snoc:
  assumes "chain h p as" and "as \<noteq> []" and "h (last as) = Some ln"
    and "h nd = Some nn" and "node_next nn = None" and "nd \<notin> set as"
  shows "chain (h(last as \<mapsto> ln\<lparr>node_next := Some nd\<rparr>)) p (as @ [nd])"
  using assms
proof (induction as arbitrary: p)
  case Nil
  then show ?case by simp
next
  case (Cons a as)
  show ?case
  proof (cases as)
    case Nil
    with Cons.prems show ?thesis by (auto split: option.splits)
  next
    case (Cons b bs)
    from Cons.prems(1) obtain n where n: "p = Some a" "h a = Some n" "chain h (node_next n) as"
      by (auto split: option.splits)
    have "a \<notin> set as" using n(2,3) by (rule chain_head_notin_tail)
    then have ne: "last as \<noteq> a" using Cons by (metis last_in_set list.distinct(1))
    have l: "last (a # as) = last as" using Cons by simp
    define h' where "h' = h(last as \<mapsto> ln\<lparr>node_next := Some nd\<rparr>)"
    have a: "h' a = Some n" using ne n(2) by (simp add: h'_def)
    have "chain h' (node_next n) (as @ [nd])"
      unfolding h'_def using Cons.prems Cons n by (intro Cons.IH) auto
    then have "chain h' p ((a # as) @ [nd])" using n(1) a by simp
    then show ?thesis unfolding h'_def l .
  qed
qed

lemma find_loop_chain:
  "chain h p as \<Longrightarrow> find_loop h p key = Some (Inr (List.find (matches h key) as))"
proof (induction as arbitrary: p)
  case Nil
  then show ?case by (subst find_loop.simps) simp
next
  case (Cons a as)
  then obtain n where n: "p = Some a" "h a = Some n" "chain h (node_next n) as"
    by (auto split: option.splits)
  show ?case using n Cons.IH [OF n(3)]
    by (subst find_loop.simps) (simp add: matches_Some)
qed

lemma get_loop_chain:
  "chain h p as \<Longrightarrow>
   get_loop h p key =
     Some (Inr (case List.find (matches h key) as of None \<Rightarrow> 0 | Some a \<Rightarrow> node_value (the (h a))))"
proof (induction as arbitrary: p)
  case Nil
  then show ?case by (subst get_loop.simps) simp
next
  case (Cons a as)
  then obtain n where n: "p = Some a" "h a = Some n" "chain h (node_next n) as"
    by (auto split: option.splits)
  show ?case using n Cons.IH [OF n(3)]
    by (subst get_loop.simps) (simp add: matches_Some)
qed

lemma insert_loop_chain:
  "chain h (Some c) as \<Longrightarrow> insert_loop h c = Some (Inr (last as))"
proof (induction as arbitrary: c)
  case Nil
  then show ?case by simp
next
  case (Cons a as)
  then obtain n where n: "c = a" "h a = Some n" "chain h (node_next n) as"
    by (auto split: option.splits)
  show ?case
  proof (cases "node_next n")
    case None
    with n show ?thesis by (subst insert_loop.simps) simp
  next
    case (Some nx)
    with n have "as \<noteq> []" by auto
    moreover have "insert_loop h nx = Some (Inr (last as))"
      using n(3) Some by (intro Cons.IH) simp
    ultimately show ?thesis using n Some by (subst insert_loop.simps) simp
  qed
qed

subsection \<open>What set does to a chain\<close>

lemma hashtable_node_create_Some:
  "hashtable_node_create (Some a) key v h = (Some a, h(a \<mapsto> new_node key v))"
  by (simp add: hashtable_node_create_def new_node_def)

lemma matches_cong:
  "map_option node_key (h' a) = map_option node_key (h a) \<Longrightarrow> matches h' key a = matches h key a"
  by (cases "h a"; cases "h' a") (auto simp: matches_def)

lemma find_matches_cong:
  assumes "\<forall>a\<in>set as. map_option node_key (h' a) = map_option node_key (h a)"
  shows "List.find (matches h' key) as = List.find (matches h key) as"
proof (rule find_cong)
  show "as = as" ..
next
  fix a assume "a \<in> set as"
  with assms show "matches h' key a = matches h key a" by (intro matches_cong) simp
qed

lemma matches_new_node: "h a = Some (new_node key v) \<Longrightarrow> matches h key a"
  by (simp add: matches_def new_node_def strncmp_strncpy)

lemma hashtable_node_insert_chain:
  assumes c: "chain h (Some p) as" and nd: "h nd = Some nn" and nx: "node_next nn = None"
    and fresh: "nd \<notin> set as"
  shows "hashtable_node_insert h (Some p) (Some nd) =
           Some (Inr (h(last as \<mapsto> (the (h (last as)))\<lparr>node_next := Some nd\<rparr>)))"
proof -
  from c obtain pn rest where as: "as = p # rest" and pn: "h p = Some pn"
    and r: "chain h (node_next pn) rest"
    by (cases as) (auto split: option.splits)
  show ?thesis
  proof (cases "node_next pn")
    case None
    with r have "rest = []" by simp
    with as pn None show ?thesis by (simp add: hashtable_node_insert_def)
  next
    case (Some c')
    with r have ne: "rest \<noteq> []" by auto
    then have l: "last as = last rest" using as by simp
    have "last rest \<in> set as" using ne as by simp
    then obtain ln where ln: "h (last rest) = Some ln" using chain_in_heap [OF c] by blast
    have neq: "nd \<noteq> last rest" using fresh ne as by auto
    have il: "insert_loop h c' = Some (Inr (last rest))"
      using r Some by (intro insert_loop_chain) simp
    have nn: "nn\<lparr>node_next := None\<rparr> = nn" using nx by simp
    let ?h1 = "h(last rest \<mapsto> ln\<lparr>node_next := Some nd\<rparr>)"
    have "?h1 nd = Some nn" using neq nd by simp
    then have "?h1(nd \<mapsto> nn) = ?h1" by (rule map_upd_triv)
    then show ?thesis
      using pn Some il ln neq nd
      by (simp add: hashtable_node_insert_def store_def l nn)
  qed
qed

lemma bucket_Inr:
  "bucket ht i = Inr p \<Longrightarrow> 0 \<le> i \<and> i < 100 \<and> nat i < length (array ht) \<and> p = array ht ! nat i"
  by (auto simp: bucket_def split: if_splits)

lemma hashtable_set_malloc_fails: "hashtable_set sc None h ht key v = Some (Inr (- 1, h, ht))"
  by (simp add: hashtable_set_def hashtable_node_create_def)

lemma hashtable_set_fault:
  "bucket ht (calculate_hash sc key) = Inl e \<Longrightarrow> hashtable_set sc (Some nd) h ht key v = Some (Inl e)"
  by (simp add: hashtable_set_def hashtable_node_create_def)

lemma hashtable_set_empty_bucket:
  assumes "bucket ht (calculate_hash sc key) = Inr None"
  shows "hashtable_set sc (Some nd) h ht key v =
           Some (Inr (0, h(nd \<mapsto> new_node key v),
                      ht\<lparr>array := (array ht)[nat (calculate_hash sc key) := Some nd]\<rparr>))"
  using assms by (simp add: hashtable_set_def hashtable_node_create_Some)

lemma hashtable_set_found:
  assumes b: "bucket ht (calculate_hash sc key) = Inr (Some p)"
    and c: "chain h (Some p) as" and fresh: "h nd = None"
    and len: "strnlen key HASHTABLE_KEY_SIZE < HASHTABLE_KEY_SIZE"
    and f: "List.find (matches h key) as = Some found"
  shows "hashtable_set sc (Some nd) h ht key v =
           Some (Inr (0, h(nd \<mapsto> new_node key v, found \<mapsto> (the (h found))\<lparr>node_value := v\<rparr>), ht))"
proof -
  let ?h1 = "h(nd \<mapsto> new_node key v)"
  have nin: "nd \<notin> set as" using chain_in_heap [OF c] fresh by fastforce
  have c1: "chain ?h1 (Some p) as" using c nin by (subst chain_cong [where h = h]) auto
  have "List.find (matches ?h1 key) as = List.find (matches h key) as"
    using nin by (intro find_matches_cong) auto
  then have fl: "find_loop ?h1 (Some p) key = Some (Inr (Some found))"
    using find_loop_chain [OF c1, of key] f by simp
  have "found \<in> set as" using f by (auto simp: find_Some_iff)
  then obtain fn where fn: "h found = Some fn" and ne: "found \<noteq> nd"
    using chain_in_heap [OF c] nin by blast
  show ?thesis using b len fl fn ne
    by (simp add: hashtable_set_def hashtable_node_create_Some hashtable_node_find_by_key_def
        store_def)
qed

lemma hashtable_set_append:
  assumes b: "bucket ht (calculate_hash sc key) = Inr (Some p)"
    and c: "chain h (Some p) as" and fresh: "h nd = None"
    and f: "HASHTABLE_KEY_SIZE \<le> strnlen key HASHTABLE_KEY_SIZE \<or> List.find (matches h key) as = None"
  shows "hashtable_set sc (Some nd) h ht key v =
           Some (Inr (0, h(nd \<mapsto> new_node key v,
                           last as \<mapsto> (the (h (last as)))\<lparr>node_next := Some nd\<rparr>), ht))"
proof -
  let ?h1 = "h(nd \<mapsto> new_node key v)"
  have nin: "nd \<notin> set as" using chain_in_heap [OF c] fresh by fastforce
  have c1: "chain ?h1 (Some p) as" using c nin by (subst chain_cong [where h = h]) auto
  have "List.find (matches ?h1 key) as = List.find (matches h key) as"
    using nin by (intro find_matches_cong) auto
  then have fl: "hashtable_node_find_by_key ?h1 (Some p) key = Some (Inr None)"
    using find_loop_chain [OF c1, of key] f by (auto simp: hashtable_node_find_by_key_def)
  have "as \<noteq> []" using c by auto
  then have "last as \<noteq> nd" using nin last_in_set by metis
  then have l: "the (?h1 (last as)) = the (h (last as))" by simp
  have "hashtable_node_insert ?h1 (Some p) (Some nd) =
          Some (Inr (?h1(last as \<mapsto> (the (?h1 (last as)))\<lparr>node_next := Some nd\<rparr>)))"
  proof (rule hashtable_node_insert_chain [OF c1 _ _ nin])
    show "?h1 nd = Some (new_node key v)" by simp
    show "node_next (new_node key v) = None" by (simp add: new_node_def)
  qed
  then show ?thesis using b fl unfolding l
    by (simp add: hashtable_set_def hashtable_node_create_Some)
qed

subsection \<open>What get reads after a set\<close>

lemma hashtable_create_empty: "hashtable_create True = Some empty_table"
  by (simp add: hashtable_create_def empty_table_def)

lemma bucket_empty_table:
  "0 \<le> i \<Longrightarrow> i < 100 \<Longrightarrow> bucket empty_table i = Inr None"
  by (simp add: bucket_def empty_table_def)

lemma hash_eric: "calculate_hash sc key_eric = 19"
  by (cases sc) (simp_all add: key_eric_def calculate_hash_def hash_loop.simps char_at_def
      char_to_int_def signed_modulo_int_def)

lemma hash_erhd: "calculate_hash sc key_erhd = 19"
  by (cases sc) (simp_all add: key_erhd_def calculate_hash_def hash_loop.simps char_at_def
      char_to_int_def signed_modulo_int_def)

lemma strnlen_keys:
  "strnlen key_eric HASHTABLE_KEY_SIZE = 4" "strnlen key_erhd HASHTABLE_KEY_SIZE = 4"
  by (simp_all add: strnlen_eq strlen_def key_eric_def key_erhd_def)

lemma bucket_eric_table: "bucket eric_table 19 = Inr (Some 1)"
  by (simp add: bucket_def eric_table_def empty_table_def)

lemma chain_eric_heap: "chain eric_heap (Some 1) [1]"
  by (simp add: eric_heap_def new_node_def)

lemma find_snoc:
  "List.find P xs = None \<Longrightarrow> P y \<Longrightarrow> List.find P (xs @ [y]) = Some y"
  by (induction xs) (auto split: if_splits)

lemma hashtable_get_chain:
  assumes "bucket ht (calculate_hash sc key) = Inr p" and "chain h p as"
  shows "hashtable_get sc h ht key =
           Some (Inr (case List.find (matches h key) as of
                        None \<Rightarrow> 0 | Some a \<Rightarrow> node_value (the (h a))))"
  using assms by (simp add: hashtable_get_def get_loop_chain)

lemma hashtable_get_empty_table:
  assumes "0 \<le> calculate_hash sc key" and "calculate_hash sc key < 100"
  shows "hashtable_get sc h empty_table key = Some (Inr 0)"
proof -
  have "bucket empty_table (calculate_hash sc key) = Inr None"
    using assms by (rule bucket_empty_table)
  moreover have "chain h None []" by simp
  ultimately show ?thesis by (simp add: hashtable_get_chain)
qed

text \<open>Overwriting: the key is in the chain, so the chain stays as it is.\<close>

lemma hashtable_set_found_post:
  assumes b: "bucket ht (calculate_hash sc key) = Inr p"
    and c: "chain h p as" and fresh: "h nd = None"
    and len: "strnlen key HASHTABLE_KEY_SIZE < HASHTABLE_KEY_SIZE"
    and f: "List.find (matches h key) as = Some found"
  shows "\<exists>h'. hashtable_set sc (Some nd) h ht key v = Some (Inr (0, h', ht)) \<and>
           chain h' p as \<and> List.find (matches h' key) as = Some found \<and>
           node_value (the (h' found)) = v \<and> h' nd = Some (new_node key v) \<and>
           (\<forall>a. a \<noteq> nd \<longrightarrow> (h' a = None) = (h a = None))"
proof -
  let ?h' = "h(nd \<mapsto> new_node key v, found \<mapsto> (the (h found))\<lparr>node_value := v\<rparr>)"
  have "as \<noteq> []" using f by auto
  then obtain q where p: "p = Some q" using c by (cases p) auto
  have nin: "nd \<notin> set as" using chain_in_heap [OF c] fresh by fastforce
  have "found \<in> set as" using f by (auto simp: find_Some_iff)
  then obtain fn where fn: "h found = Some fn" and ne: "found \<noteq> nd"
    using chain_in_heap [OF c] nin by blast
  have s: "hashtable_set sc (Some nd) h ht key v = Some (Inr (0, ?h', ht))"
    using b c fresh len f unfolding p by (rule hashtable_set_found)
  have 1: "chain ?h' p as"
    using c nin fn by (subst chain_cong [where h = h]) auto
  have "List.find (matches ?h' key) as = List.find (matches h key) as"
    using nin fn by (intro find_matches_cong) auto
  then have 2: "List.find (matches ?h' key) as = Some found" using f by simp
  have 3: "node_value (the (?h' found)) = v" by simp
  have 4: "?h' nd = Some (new_node key v)" using ne by simp
  have 5: "\<forall>a. a \<noteq> nd \<longrightarrow> (?h' a = None) = (h a = None)" using fn by simp
  show ?thesis using s 1 2 3 4 5 by blast
qed

text \<open>Any successful set of a short key leaves the key in its bucket's chain, with the value.\<close>

lemma hashtable_set_stores:
  assumes b: "bucket ht (calculate_hash sc key) = Inr p"
    and c: "chain h p as" and fresh: "h nd = None"
    and len: "strnlen key HASHTABLE_KEY_SIZE < HASHTABLE_KEY_SIZE"
  shows "\<exists>h' ht' p' as' found.
           hashtable_set sc (Some nd) h ht key v = Some (Inr (0, h', ht')) \<and>
           bucket ht' (calculate_hash sc key) = Inr p' \<and> chain h' p' as' \<and>
           List.find (matches h' key) as' = Some found \<and> node_value (the (h' found)) = v \<and>
           (\<forall>a. a \<noteq> nd \<longrightarrow> (h' a = None) = (h a = None))"
proof (cases "List.find (matches h key) as")
  case (Some found)
  show ?thesis
    using hashtable_set_found_post [OF b c fresh len Some, of v] b by blast
next
  case None
  let ?i = "nat (calculate_hash sc key)"
  let ?h1 = "h(nd \<mapsto> new_node key v)"
  have nin: "nd \<notin> set as" using chain_in_heap [OF c] fresh by fastforce
  from bucket_Inr [OF b] have i: "0 \<le> calculate_hash sc key" "calculate_hash sc key < 100"
    "?i < length (array ht)" and pi: "p = array ht ! ?i" by simp_all
  show ?thesis
  proof (cases p)
    case pNone: None
    let ?ht' = "ht\<lparr>array := (array ht)[?i := Some nd]\<rparr>"
    have s: "hashtable_set sc (Some nd) h ht key v = Some (Inr (0, ?h1, ?ht'))"
      using b unfolding pNone by (rule hashtable_set_empty_bucket)
    have 1: "bucket ?ht' (calculate_hash sc key) = Inr (Some nd)"
      using i by (simp add: bucket_def)
    have 2: "chain ?h1 (Some nd) [nd]" by (simp add: new_node_def)
    have "matches ?h1 key nd" by (rule matches_new_node) simp
    then have 3: "List.find (matches ?h1 key) [nd] = Some nd" by simp
    have 4: "node_value (the (?h1 nd)) = v" by (simp add: new_node_def)
    have 5: "\<forall>a. a \<noteq> nd \<longrightarrow> (?h1 a = None) = (h a = None)" by simp
    show ?thesis using s 1 2 3 4 5 by blast
  next
    case (Some q)
    then have ne: "as \<noteq> []" using c by auto
    then have "last as \<in> set as" by simp
    then obtain ln where ln: "h (last as) = Some ln" and lnd: "last as \<noteq> nd"
      using chain_in_heap [OF c] nin by blast
    let ?h' = "?h1(last as \<mapsto> (the (h (last as)))\<lparr>node_next := Some nd\<rparr>)"
    have s: "hashtable_set sc (Some nd) h ht key v = Some (Inr (0, ?h', ht))"
      using b c fresh None unfolding Some by (intro hashtable_set_append) simp_all
    have c1: "chain ?h1 p as" using c nin by (subst chain_cong [where h = h]) auto
    have "chain (?h1(last as \<mapsto> ln\<lparr>node_next := Some nd\<rparr>)) p (as @ [nd])"
      using c1 ne _ _ _ nin
    proof (rule chain_snoc)
      show "?h1 (last as) = Some ln" using ln lnd by simp
      show "?h1 nd = Some (new_node key v)" by simp
      show "node_next (new_node key v) = None" by (simp add: new_node_def)
    qed
    then have 2: "chain ?h' p (as @ [nd])" using ln by simp
    have "List.find (matches ?h' key) as = List.find (matches h key) as"
      using nin ln by (intro find_matches_cong) auto
    then have n: "List.find (matches ?h' key) as = None" using None by simp
    have hnd: "?h' nd = Some (new_node key v)" using lnd by simp
    then have "matches ?h' key nd" by (rule matches_new_node)
    then have 3: "List.find (matches ?h' key) (as @ [nd]) = Some nd"
      using n by (intro find_snoc)
    have 4: "node_value (the (?h' nd)) = v" using hnd by (simp add: new_node_def)
    have 5: "\<forall>a. a \<noteq> nd \<longrightarrow> (?h' a = None) = (h a = None)" using ln by simp
    show ?thesis using s b 2 3 4 5 by blast
  qed
qed

subsection \<open>The invariant of the table\<close>

lemma table_inv_empty: "table_inv sc h empty_table (\<lambda>i. [])"
  by (simp add: table_inv_def empty_table_def)

lemma table_inv_chains_distinct: "table_inv sc h ht cs \<Longrightarrow> chains_distinct h ht"
  unfolding table_inv_def chains_distinct_def by blast

lemma table_inv_buckets_share_no_key:
  assumes "table_inv sc h ht cs"
  shows "buckets_share_no_key h ht"
  unfolding buckets_share_no_key_def
proof (intro allI impI)
  fix i j as bs
  assume i: "i < HASHTABLE_NODE_COUNT" and j: "j < HASHTABLE_NODE_COUNT" and ne: "i \<noteq> j"
    and a: "chain h (array ht ! i) as" and b: "chain h (array ht ! j) bs"
  have "chain h (array ht ! i) (cs i)" "chain h (array ht ! j) (cs j)"
    using assms i j by (simp_all add: table_inv_def)
  then have as: "as = cs i" and bs: "bs = cs j"
    using a b chain_unique by blast+
  have hi: "\<forall>a\<in>set (cs i). calculate_hash sc (key_of h a) = int i"
    and hj: "\<forall>a\<in>set (cs j). calculate_hash sc (key_of h a) = int j"
    using assms i j by (simp_all add: table_inv_def)
  show "set (map (key_of h) as) \<inter> set (map (key_of h) bs) = {}"
  proof (rule ccontr)
    assume "set (map (key_of h) as) \<inter> set (map (key_of h) bs) \<noteq> {}"
    then obtain x y where "x \<in> set (cs i)" "y \<in> set (cs j)" "key_of h x = key_of h y"
      unfolding as bs by auto
    with hi hj have "int i = int j" by metis
    with ne show False by simp
  qed
qed

lemma key_prefix_strncpy: "key_prefix (strncpy key HASHTABLE_KEY_SIZE) = key_prefix key"
proof -
  let ?p = "take HASHTABLE_KEY_SIZE (takeWhile (\<lambda>c. c \<noteq> 0) key)"
  have nz: "\<And>x. x \<in> set ?p \<Longrightarrow> x \<noteq> 0"
    by (auto dest: in_set_takeD set_takeWhileD)
  have "takeWhile (\<lambda>c. c \<noteq> 0) (?p @ replicate (HASHTABLE_KEY_SIZE - strlen key) 0) =
      ?p @ takeWhile (\<lambda>c. c \<noteq> 0) (replicate (HASHTABLE_KEY_SIZE - strlen key) 0)"
    using nz by (rule takeWhile_append2)
  then have "takeWhile (\<lambda>c. c \<noteq> 0) (strncpy key HASHTABLE_KEY_SIZE) = ?p"
    by (simp add: strncpy_eq)
  then show ?thesis by (simp add: key_prefix_eq)
qed

lemma calculate_hash_strncpy:
  "calculate_hash sc (strncpy key HASHTABLE_KEY_SIZE) = calculate_hash sc key"
  by (simp add: calculate_hash_eq key_prefix_strncpy)

lemma chain_frame:
  "chain h p as \<Longrightarrow> \<forall>a\<in>set as. h' a = h a \<Longrightarrow> chain h' p as"
  by (subst chain_cong [where h = h]) simp_all

lemma key_of_frame:
  assumes "\<forall>a\<in>set as. map_option node_key (h' a) = map_option node_key (h a)"
  shows "map (key_of h') as = map (key_of h) as"
proof (rule map_cong [OF refl])
  fix a assume "a \<in> set as"
  with assms have "map_option node_key (h' a) = map_option node_key (h a)" by blast
  then show "key_of h' a = key_of h a"
    by (cases "h a"; cases "h' a") (auto simp: key_of_def)
qed

lemma no_match_key_of:
  assumes "h a = Some n" and "\<not> matches h key a"
  shows "key_of h a \<noteq> strncpy key HASHTABLE_KEY_SIZE"
proof
  assume "key_of h a = strncpy key HASHTABLE_KEY_SIZE"
  with assms(1) have "node_key n = strncpy key HASHTABLE_KEY_SIZE" by (simp add: key_of_def)
  then have "matches h key a" using assms(1) by (simp add: matches_Some strncmp_strncpy)
  with assms(2) show False by contradiction
qed

lemma table_inv_fresh:
  assumes "table_inv sc h ht cs" and "h nd = None" and "j < HASHTABLE_NODE_COUNT"
  shows "nd \<notin> set (cs j)"
proof
  assume "nd \<in> set (cs j)"
  moreover have "chain h (array ht ! j) (cs j)" using assms(1,3) by (simp add: table_inv_def)
  ultimately have "\<exists>n. h nd = Some n" by (rule chain_in_heap [rotated])
  with assms(2) show False by simp
qed

lemma table_inv_found:
  assumes inv: "table_inv sc h ht cs" and fresh: "h nd = None"
    and fn: "h found = Some fn"
  shows "table_inv sc (h(nd \<mapsto> n0, found \<mapsto> fn\<lparr>node_value := v\<rparr>)) ht cs"
proof -
  let ?h' = "h(nd \<mapsto> n0, found \<mapsto> fn\<lparr>node_value := v\<rparr>)"
  have ne: "found \<noteq> nd" using fn fresh by auto
  have nx: "map_option node_next (?h' a) = map_option node_next (h a)" if "a \<noteq> nd" for a
    using that fn by simp
  have ky: "map_option node_key (?h' a) = map_option node_key (h a)" if "a \<noteq> nd" for a
    using that fn by simp
  have 1: "chain ?h' (array ht ! j) (cs j)" if j: "j < HASHTABLE_NODE_COUNT" for j
  proof -
    have "nd \<notin> set (cs j)" using inv fresh j by (rule table_inv_fresh)
    then have "\<forall>a\<in>set (cs j). map_option node_next (?h' a) = map_option node_next (h a)"
      by (intro ballI nx) auto
    then have "chain ?h' (array ht ! j) (cs j) = chain h (array ht ! j) (cs j)"
      by (rule chain_cong)
    then show ?thesis using inv j by (simp add: table_inv_def)
  qed
  have 2: "distinct (map (key_of ?h') (cs j))" if j: "j < HASHTABLE_NODE_COUNT" for j
  proof -
    have "nd \<notin> set (cs j)" using inv fresh j by (rule table_inv_fresh)
    then have "\<forall>a\<in>set (cs j). map_option node_key (?h' a) = map_option node_key (h a)"
      by (intro ballI ky) auto
    then have e: "map (key_of ?h') (cs j) = map (key_of h) (cs j)" by (rule key_of_frame)
    have "distinct (map (key_of h) (cs j))" using inv j by (simp add: table_inv_def)
    then show ?thesis unfolding e .
  qed
  have 3: "calculate_hash sc (key_of ?h' a) = int j"
    if j: "j < HASHTABLE_NODE_COUNT" and a: "a \<in> set (cs j)" for j a
  proof -
    have "a \<noteq> nd" using table_inv_fresh [OF inv fresh j] a by auto
    then have "key_of ?h' a = key_of h a" using fn by (simp add: key_of_def)
    then show ?thesis using inv j a by (simp add: table_inv_def)
  qed
  show ?thesis using inv 1 2 3 unfolding table_inv_def by blast
qed

lemma table_inv_empty_bucket:
  assumes inv: "table_inv sc h ht cs" and fresh: "h nd = None"
    and i: "i < HASHTABLE_NODE_COUNT" and e: "cs i = []"
    and hk: "calculate_hash sc key = int i"
  shows "table_inv sc (h(nd \<mapsto> new_node key v)) (ht\<lparr>array := (array ht)[i := Some nd]\<rparr>)
           (cs(i := [nd]))"
proof -
  let ?h' = "h(nd \<mapsto> new_node key v)"
  let ?ht' = "ht\<lparr>array := (array ht)[i := Some nd]\<rparr>"
  let ?cs' = "cs(i := [nd])"
  have len: "length (array ht) = HASHTABLE_NODE_COUNT" using inv by (simp add: table_inv_def)
  have nin: "nd \<notin> set (cs j)" if "j < HASHTABLE_NODE_COUNT" for j
    using inv fresh that by (rule table_inv_fresh)
  have 0: "length (array ?ht') = HASHTABLE_NODE_COUNT" using len by simp
  have 1: "chain ?h' (array ?ht' ! j) (?cs' j)" if j: "j < HASHTABLE_NODE_COUNT" for j
  proof (cases "j = i")
    case True
    then show ?thesis using len i by (simp add: new_node_def)
  next
    case False
    have "chain h (array ht ! j) (cs j)" using inv j by (simp add: table_inv_def)
    then have "chain ?h' (array ht ! j) (cs j)"
      by (rule chain_frame) (use nin [OF j] in auto)
    then show ?thesis using False by simp
  qed
  have 2: "set (?cs' j) \<inter> set (?cs' k) = {}"
    if "j < HASHTABLE_NODE_COUNT" "k < HASHTABLE_NODE_COUNT" "j \<noteq> k" for j k
  proof -
    have "set (cs j) \<inter> set (cs k) = {}" using inv that by (simp add: table_inv_def)
    then show ?thesis using nin [OF that(1)] nin [OF that(2)] that(3) by auto
  qed
  have 3: "distinct (map (key_of ?h') (?cs' j))" if j: "j < HASHTABLE_NODE_COUNT" for j
  proof (cases "j = i")
    case True
    then show ?thesis by simp
  next
    case False
    have "\<forall>a\<in>set (cs j). map_option node_key (?h' a) = map_option node_key (h a)"
      using nin [OF j] by auto
    then have e: "map (key_of ?h') (cs j) = map (key_of h) (cs j)" by (rule key_of_frame)
    have cj: "?cs' j = cs j" using False by simp
    have "distinct (map (key_of h) (cs j))" using inv j by (simp add: table_inv_def)
    then show ?thesis unfolding cj e .
  qed
  have 4: "calculate_hash sc (key_of ?h' a) = int j"
    if j: "j < HASHTABLE_NODE_COUNT" and a: "a \<in> set (?cs' j)" for j a
  proof (cases "j = i")
    case True
    then have "a = nd" using a by simp
    then show ?thesis using True hk
      by (simp add: key_of_def new_node_def calculate_hash_strncpy)
  next
    case False
    then have aj: "a \<in> set (cs j)" using a by simp
    then have "a \<noteq> nd" using nin [OF j] by auto
    then have "key_of ?h' a = key_of h a" by (simp add: key_of_def)
    then show ?thesis using inv j aj by (simp add: table_inv_def)
  qed
  show ?thesis unfolding table_inv_def using 0 1 2 3 4 by blast
qed

lemma table_inv_append:
  assumes inv: "table_inv sc h ht cs" and fresh: "h nd = None"
    and i: "i < HASHTABLE_NODE_COUNT" and ne: "cs i \<noteq> []"
    and f: "List.find (matches h key) (cs i) = None"
    and hk: "calculate_hash sc key = int i"
  shows "table_inv sc
           (h(nd \<mapsto> new_node key v, last (cs i) \<mapsto> (the (h (last (cs i))))\<lparr>node_next := Some nd\<rparr>))
           ht (cs(i := cs i @ [nd]))"
proof -
  let ?l = "last (cs i)"
  let ?h1 = "h(nd \<mapsto> new_node key v)"
  let ?h' = "?h1(?l \<mapsto> (the (h ?l))\<lparr>node_next := Some nd\<rparr>)"
  let ?cs' = "cs(i := cs i @ [nd])"
  have len: "length (array ht) = HASHTABLE_NODE_COUNT" using inv by (simp add: table_inv_def)
  have ch: "chain h (array ht ! j) (cs j)" if "j < HASHTABLE_NODE_COUNT" for j
    using inv that by (simp add: table_inv_def)
  have dj: "set (cs j) \<inter> set (cs k) = {}"
    if "j < HASHTABLE_NODE_COUNT" "k < HASHTABLE_NODE_COUNT" "j \<noteq> k" for j k
    using inv that by (simp add: table_inv_def)
  have nin: "nd \<notin> set (cs j)" if "j < HASHTABLE_NODE_COUNT" for j
    using inv fresh that by (rule table_inv_fresh)
  have li: "?l \<in> set (cs i)" using ne by simp
  then obtain ln where ln: "h ?l = Some ln" using chain_in_heap [OF ch [OF i]] by blast
  have lnd: "?l \<noteq> nd" using li nin [OF i] by auto
  have ky: "map_option node_key (?h' a) = map_option node_key (h a)" if "a \<noteq> nd" for a
    using that ln by simp
  have 1: "chain ?h' (array ht ! j) (?cs' j)" if j: "j < HASHTABLE_NODE_COUNT" for j
  proof (cases "j = i")
    case True
    have c1: "chain ?h1 (array ht ! i) (cs i)"
      by (rule chain_frame [OF ch [OF i]]) (use nin [OF i] in auto)
    have "chain (?h1(?l \<mapsto> ln\<lparr>node_next := Some nd\<rparr>)) (array ht ! i) (cs i @ [nd])"
      using c1 ne _ _ _ nin [OF i]
    proof (rule chain_snoc)
      show "?h1 ?l = Some ln" using ln lnd by simp
      show "?h1 nd = Some (new_node key v)" by simp
      show "node_next (new_node key v) = None" by (simp add: new_node_def)
    qed
    then show ?thesis using True ln by simp
  next
    case False
    have "?l \<notin> set (cs j)" using dj [OF i j] li False by auto
    then have "\<forall>a\<in>set (cs j). ?h' a = h a" using nin [OF j] by auto
    with ch [OF j] have "chain ?h' (array ht ! j) (cs j)" by (rule chain_frame)
    then show ?thesis using False by simp
  qed
  have 2: "set (?cs' j) \<inter> set (?cs' k) = {}"
    if "j < HASHTABLE_NODE_COUNT" "k < HASHTABLE_NODE_COUNT" "j \<noteq> k" for j k
    using dj [OF that] nin [OF that(1)] nin [OF that(2)] that(3) by auto
  have kf: "map (key_of ?h') (cs j) = map (key_of h) (cs j)" if j: "j < HASHTABLE_NODE_COUNT" for j
  proof (rule key_of_frame)
    show "\<forall>a\<in>set (cs j). map_option node_key (?h' a) = map_option node_key (h a)"
      by (intro ballI ky) (use nin [OF j] in auto)
  qed
  have 3: "distinct (map (key_of ?h') (?cs' j))" if j: "j < HASHTABLE_NODE_COUNT" for j
  proof (cases "j = i")
    case True
    have d: "distinct (map (key_of h) (cs i))" using inv i by (simp add: table_inv_def)
    have k: "key_of ?h' nd = strncpy key HASHTABLE_KEY_SIZE"
      using lnd by (simp add: key_of_def new_node_def)
    have cj: "?cs' j = cs i @ [nd]" using True by simp
    have "strncpy key HASHTABLE_KEY_SIZE \<notin> set (map (key_of h) (cs i))"
    proof
      assume "strncpy key HASHTABLE_KEY_SIZE \<in> set (map (key_of h) (cs i))"
      then obtain a where a: "a \<in> set (cs i)" "key_of h a = strncpy key HASHTABLE_KEY_SIZE"
        by auto
      from a(1) obtain n where n: "h a = Some n" using chain_in_heap [OF ch [OF i]] by blast
      have "\<not> matches h key a" using f a(1) by (simp add: find_None_iff)
      with n have "key_of h a \<noteq> strncpy key HASHTABLE_KEY_SIZE" by (rule no_match_key_of)
      with a(2) show False by contradiction
    qed
    then have "distinct (map (key_of h) (cs i) @ [strncpy key HASHTABLE_KEY_SIZE])"
      using d by simp
    then show ?thesis unfolding cj map_append kf [OF i] list.map k .
  next
    case False
    have cj: "?cs' j = cs j" using False by simp
    have "distinct (map (key_of h) (cs j))" using inv j by (simp add: table_inv_def)
    then show ?thesis unfolding cj kf [OF j] .
  qed
  have 4: "calculate_hash sc (key_of ?h' a) = int j"
    if j: "j < HASHTABLE_NODE_COUNT" and a: "a \<in> set (?cs' j)" for j a
  proof (cases "a = nd")
    case True
    then have "j = i" using a nin [OF j] by (cases "j = i") auto
    then show ?thesis using True hk lnd
      by (simp add: key_of_def new_node_def calculate_hash_strncpy)
  next
    case False
    then have aj: "a \<in> set (cs j)" using a by (cases "j = i") auto
    have "map_option node_key (?h' a) = map_option node_key (h a)" using False by (rule ky)
    then have "key_of ?h' a = key_of h a"
      by (cases "h a"; cases "?h' a") (auto simp: key_of_def)
    then show ?thesis using inv j aj by (simp add: table_inv_def)
  qed
  show ?thesis unfolding table_inv_def using len 1 2 3 4 by blast
qed

lemma hashtable_set_preserves_inv:
  assumes inv: "table_inv sc h ht cs" and fresh: "h nd = None"
    and len: "strnlen key HASHTABLE_KEY_SIZE < HASHTABLE_KEY_SIZE"
    and h0: "0 \<le> calculate_hash sc key" and h1: "calculate_hash sc key < 100"
  shows "\<exists>h' ht' cs'. hashtable_set sc (Some nd) h ht key v = Some (Inr (0, h', ht')) \<and>
           table_inv sc h' ht' cs' \<and> (\<forall>a. a \<noteq> nd \<longrightarrow> (h' a = None) = (h a = None))"
proof -
  let ?i = "nat (calculate_hash sc key)"
  have i: "?i < HASHTABLE_NODE_COUNT" using h0 h1 by simp
  have hk: "calculate_hash sc key = int ?i" using h0 by simp
  have l: "length (array ht) = HASHTABLE_NODE_COUNT" using inv by (simp add: table_inv_def)
  have b: "bucket ht (calculate_hash sc key) = Inr (array ht ! ?i)"
    using h0 h1 l by (simp add: bucket_def)
  have c: "chain h (array ht ! ?i) (cs ?i)" using inv i by (simp add: table_inv_def)
  show ?thesis
  proof (cases "List.find (matches h key) (cs ?i)")
    case (Some found)
    then have "cs ?i \<noteq> []" by auto
    then obtain q where q: "array ht ! ?i = Some q" using c by (cases "array ht ! ?i") auto
    have "found \<in> set (cs ?i)" using Some by (auto simp: find_Some_iff)
    then obtain fn where fn: "h found = Some fn" using chain_in_heap [OF c] by blast
    let ?h' = "h(nd \<mapsto> new_node key v, found \<mapsto> (the (h found))\<lparr>node_value := v\<rparr>)"
    have "hashtable_set sc (Some nd) h ht key v = Some (Inr (0, ?h', ht))"
      using b c fresh len Some unfolding q by (rule hashtable_set_found)
    moreover have "table_inv sc ?h' ht cs"
      using table_inv_found [OF inv fresh fn, of "new_node key v" v] fn by simp
    moreover have "\<forall>a. a \<noteq> nd \<longrightarrow> (?h' a = None) = (h a = None)" using fn by simp
    ultimately show ?thesis by blast
  next
    case None
    show ?thesis
    proof (cases "array ht ! ?i")
      case aNone: None
      then have e: "cs ?i = []" using c by simp
      let ?h' = "h(nd \<mapsto> new_node key v)"
      let ?ht' = "ht\<lparr>array := (array ht)[?i := Some nd]\<rparr>"
      have "hashtable_set sc (Some nd) h ht key v = Some (Inr (0, ?h', ?ht'))"
        using b unfolding aNone by (rule hashtable_set_empty_bucket)
      moreover have "table_inv sc ?h' ?ht' (cs(?i := [nd]))"
        using inv fresh i e hk by (rule table_inv_empty_bucket)
      moreover have "\<forall>a. a \<noteq> nd \<longrightarrow> (?h' a = None) = (h a = None)" by simp
      ultimately show ?thesis by blast
    next
      case (Some q)
      then have ne: "cs ?i \<noteq> []" using c by auto
      then have "last (cs ?i) \<in> set (cs ?i)" by simp
      then obtain ln where ln: "h (last (cs ?i)) = Some ln" using chain_in_heap [OF c] by blast
      let ?h' = "h(nd \<mapsto> new_node key v,
                   last (cs ?i) \<mapsto> (the (h (last (cs ?i))))\<lparr>node_next := Some nd\<rparr>)"
      have "hashtable_set sc (Some nd) h ht key v = Some (Inr (0, ?h', ht))"
        using b c fresh None unfolding Some by (intro hashtable_set_append) simp_all
      moreover have "table_inv sc ?h' ht (cs(?i := cs ?i @ [nd]))"
        using inv fresh i ne None hk by (rule table_inv_append)
      moreover have "\<forall>a. a \<noteq> nd \<longrightarrow> (?h' a = None) = (h a = None)" using ln by simp
      ultimately show ?thesis by blast
    qed
  qed
qed

text \<open>The keys "eric", "rice" and "eric" followed by bytes after its terminator.\<close>

lemma key_prefix_simps:
  "key_prefix [101, 114, 105, 99] = [101, 114, 105, 99]"
  "key_prefix [114, 105, 99, 101] = [114, 105, 99, 101]"
  "key_prefix [101, 114, 105, 99, 0, 120] = [101, 114, 105, 99]"
  by (simp_all add: key_prefix_def strlen_def)

subsection \<open>The inputs of the examples\<close>

lemma hashtable_set_eric:
  "hashtable_set sc (Some 1) Map.empty empty_table key_eric 111 = Some (Inr (0, eric_heap, eric_table))"
proof -
  have "bucket empty_table (calculate_hash sc key_eric) = Inr None"
    by (simp add: hash_eric bucket_empty_table)
  then show ?thesis
    by (simp add: hashtable_set_empty_bucket hash_eric eric_heap_def eric_table_def)
qed

lemma no_match_erhd: "List.find (matches eric_heap key_erhd) [1] = None"
  by code_simp

lemma match_eric: "List.find (matches eric_heap key_eric) [1] = Some 1"
proof -
  have "matches eric_heap key_eric 1"
    by (rule matches_new_node) (simp add: eric_heap_def)
  then show ?thesis by simp
qed

lemma key_prefix_long_key: "key_prefix long_key = replicate 32 97"
  by (simp add: key_prefix_eq long_key_def)

lemma hash_long_key: "calculate_hash sc long_key = 4"
  by (cases sc)
    (simp_all add: calculate_hash_eq key_prefix_long_key sum_list_replicate char_to_int_def
      signed_modulo_int_def)

lemma strnlen_long_key: "strnlen long_key HASHTABLE_KEY_SIZE = HASHTABLE_KEY_SIZE"
  by (simp add: strnlen_eq strlen_def long_key_def)

lemma hashtable_set_long_key:
  "hashtable_set sc (Some 1) Map.empty empty_table long_key 7 = Some (Inr (0, long_heap, long_table))"
proof -
  have "bucket empty_table (calculate_hash sc long_key) = Inr None"
    by (simp add: hash_long_key bucket_empty_table)
  then show ?thesis
    by (simp add: hashtable_set_empty_bucket hash_long_key long_heap_def long_table_def)
qed

lemma bucket_long_table: "bucket long_table (calculate_hash sc long_key) = Inr (Some 1)"
  by (simp add: hash_long_key bucket_def long_table_def empty_table_def)

lemma chain_long_heap: "chain long_heap (Some 1) [1]"
  by (simp add: long_heap_def new_node_def)

lemma hash_john: "calculate_hash sc key_john = 31"
  by (cases sc) (simp_all add: key_john_def calculate_hash_def hash_loop.simps char_at_def
      char_to_int_def signed_modulo_int_def)

lemma strnlen_john: "strnlen key_john HASHTABLE_KEY_SIZE = 4"
  by (simp add: strnlen_eq strlen_def key_john_def)

lemma run_sets_inv:
  assumes "table_inv sc h ht cs"
    and "\<forall>(aux, key, v)\<in>set calls.
           strnlen key HASHTABLE_KEY_SIZE < HASHTABLE_KEY_SIZE \<and>
           0 \<le> calculate_hash sc key \<and> calculate_hash sc key < 100"
    and "distinct (allocs calls)" and "\<forall>a\<in>set (allocs calls). h a = None"
  shows "\<exists>h' ht' cs'. run_sets sc calls h ht = Some (Inr (h', ht')) \<and> table_inv sc h' ht' cs'"
  using assms
proof (induction calls arbitrary: h ht cs)
  case Nil
  then show ?case by auto
next
  case (Cons call calls)
  obtain aux key v where call: "call = (aux, key, v)" by (cases call)
  have k: "strnlen key HASHTABLE_KEY_SIZE < HASHTABLE_KEY_SIZE"
    "0 \<le> calculate_hash sc key" "calculate_hash sc key < 100"
    using Cons.prems(2) call by auto
  have rest: "\<forall>(aux, key, v)\<in>set calls.
           strnlen key HASHTABLE_KEY_SIZE < HASHTABLE_KEY_SIZE \<and>
           0 \<le> calculate_hash sc key \<and> calculate_hash sc key < 100"
    using Cons.prems(2) by simp
  show ?case
  proof (cases aux)
    case None
    have "run_sets sc (call # calls) h ht = run_sets sc calls h ht"
      using call None by (simp add: hashtable_set_malloc_fails)
    moreover have "\<exists>h' ht' cs'. run_sets sc calls h ht = Some (Inr (h', ht')) \<and> table_inv sc h' ht' cs'"
      using Cons.prems(1) rest Cons.prems(3,4) call None by (intro Cons.IH) simp_all
    ultimately show ?thesis by simp
  next
    case (Some nd)
    have fresh: "h nd = None" and nin: "nd \<notin> set (allocs calls)"
      and d: "distinct (allocs calls)" and f: "\<forall>a\<in>set (allocs calls). h a = None"
      using Cons.prems(3,4) call Some by simp_all
    obtain h1 ht1 cs1 where
      s: "hashtable_set sc (Some nd) h ht key v = Some (Inr (0, h1, ht1))"
      and inv1: "table_inv sc h1 ht1 cs1"
      and dom1: "\<forall>a. a \<noteq> nd \<longrightarrow> (h1 a = None) = (h a = None)"
      using hashtable_set_preserves_inv [OF Cons.prems(1) fresh k, of v] by blast
    have f1: "\<forall>a\<in>set (allocs calls). h1 a = None" using f nin dom1 by auto
    have "run_sets sc (call # calls) h ht = run_sets sc calls h1 ht1"
      using call Some s by simp
    moreover have "\<exists>h' ht' cs'. run_sets sc calls h1 ht1 = Some (Inr (h', ht')) \<and> table_inv sc h' ht' cs'"
      using inv1 rest d f1 by (rule Cons.IH)
    ultimately show ?thesis by simp
  qed
qed

text \<open>
  The hash is a function of the first min(length, K) bytes of the key: equal prefixes,
  equal totals of the \<^verbatim>\<open>char\<close> values the code adds up (negative for the bytes from 0x80
  on where plain \<^verbatim>\<open>char\<close> is signed) and permutations of the prefix give the same hash.
\<close>

lemma calculate_hash_prefix_sum:
  "(key_prefix k1 = key_prefix k2 \<longrightarrow> calculate_hash sc k1 = calculate_hash sc k2) \<and>
   (sum_list (map (char_to_int sc) (key_prefix k1)) = sum_list (map (char_to_int sc) (key_prefix k2))
      \<longrightarrow> calculate_hash sc k1 = calculate_hash sc k2) \<and>
   (mset (key_prefix k1) = mset (key_prefix k2) \<longrightarrow> calculate_hash sc k1 = calculate_hash sc k2)"
proof (intro conjI impI)
  assume "key_prefix k1 = key_prefix k2"
  then show "calculate_hash sc k1 = calculate_hash sc k2" by (simp add: calculate_hash_eq)
next
  assume "sum_list (map (char_to_int sc) (key_prefix k1)) = sum_list (map (char_to_int sc) (key_prefix k2))"
  then show "calculate_hash sc k1 = calculate_hash sc k2" by (simp add: calculate_hash_eq)
next
  assume "mset (key_prefix k1) = mset (key_prefix k2)"
  then have "mset (map (char_to_int sc) (key_prefix k1)) = mset (map (char_to_int sc) (key_prefix k2))"
    by simp
  then have "sum_list (map (char_to_int sc) (key_prefix k1)) = sum_list (map (char_to_int sc) (key_prefix k2))"
    by (metis sum_mset_sum_list)
  then show "calculate_hash sc k1 = calculate_hash sc k2" by (simp add: calculate_hash_eq)
qed

lemma calculate_hash_prefix_sum_example:
  "key_prefix [101, 114, 105, 99, 0, 120] = key_prefix [101, 114, 105, 99] \<and>
   calculate_hash True [101, 114, 105, 99, 0, 120] = calculate_hash True [101, 114, 105, 99] \<and>
   mset (key_prefix [101, 114, 105, 99]) = mset (key_prefix [114, 105, 99, 101]) \<and>
   calculate_hash True [101, 114, 105, 99] = calculate_hash True [114, 105, 99, 101] \<and>
   calculate_hash True [101, 114, 105, 99] = 19"
proof -
  have a: "key_prefix [101, 114, 105, 99, 0, 120] = key_prefix [101, 114, 105, 99]"
    by (simp add: key_prefix_simps)
  have b: "mset (key_prefix [101, 114, 105, 99]) = mset (key_prefix [114, 105, 99, 101])"
    by (simp add: key_prefix_simps)
  have c: "calculate_hash True [101, 114, 105, 99] = 19"
    by (simp add: calculate_hash_eq key_prefix_simps char_to_int_def signed_modulo_int_def)
  show ?thesis
    using calculate_hash_prefix_sum [of "[101, 114, 105, 99, 0, 120]" "[101, 114, 105, 99]" True]
      calculate_hash_prefix_sum [of "[101, 114, 105, 99]" "[114, 105, 99, 101]" True] a b c
    by blast
qed

text \<open>Where plain \<^verbatim>\<open>char\<close> is unsigned, equal totals of the byte values give the same hash.\<close>

lemma calculate_hash_unsigned_total:
  assumes "sum_list (map uint (key_prefix k1)) = sum_list (map uint (key_prefix k2))"
  shows "calculate_hash False k1 = calculate_hash False k2"
proof -
  have "map (char_to_int False) = map uint" by (simp add: char_to_int_def fun_eq_iff)
  then show ?thesis using assms by (simp add: calculate_hash_eq)
qed

text \<open>Two keys of four bytes whose byte values have the same total, 386.\<close>

lemma key_prefix_totals:
  "key_prefix [128, 127, 127, 4] = [128, 127, 127, 4]"
  "key_prefix [127, 127, 127, 5] = [127, 127, 127, 5]"
  by (simp_all add: key_prefix_def strlen_def)

section \<open>The claims\<close>

text \<open>
  C1, as amended: for a key shorter than K whose hash is an index of the array, on a
  table whose bucket for the key is a chain that ends in \<^verbatim>\<open>NULL\<close>, a set whose allocation
  succeeds returns 0 and the get that follows returns the value.
\<close>

theorem hashtable_set_get_round_trip:
  assumes "bucket ht (calculate_hash sc key) = Inr p"
    and "chain h p as" and "h nd = None"
    and "strnlen key HASHTABLE_KEY_SIZE < HASHTABLE_KEY_SIZE"
  shows "\<exists>h' ht'. hashtable_set sc (Some nd) h ht key v = Some (Inr (0, h', ht')) \<and>
           hashtable_get sc h' ht' key = Some (Inr v)"
proof -
  obtain h' ht' p' as' found where
    s: "hashtable_set sc (Some nd) h ht key v = Some (Inr (0, h', ht'))"
    and b: "bucket ht' (calculate_hash sc key) = Inr p'" and c: "chain h' p' as'"
    and f: "List.find (matches h' key) as' = Some found" and v: "node_value (the (h' found)) = v"
    using hashtable_set_stores [OF assms, of v] by blast
  have "hashtable_get sc h' ht' key = Some (Inr v)"
    using hashtable_get_chain [OF b c] f v by simp
  with s show ?thesis by blast
qed

theorem hashtable_set_get_round_trip_witness:
  "bucket eric_table (calculate_hash True key_erhd) = Inr (Some 1) \<and>
   chain eric_heap (Some 1) [1] \<and> eric_heap 2 = None \<and>
   strnlen key_erhd HASHTABLE_KEY_SIZE < HASHTABLE_KEY_SIZE \<and>
   (\<exists>h' ht'. hashtable_set True (Some 2) eric_heap eric_table key_erhd 222 = Some (Inr (0, h', ht')) \<and>
      hashtable_get True h' ht' key_erhd = Some (Inr 222))"
proof -
  have b: "bucket eric_table (calculate_hash True key_erhd) = Inr (Some 1)"
    by (simp add: hash_erhd bucket_eric_table)
  have f: "eric_heap 2 = None" by (simp add: eric_heap_def)
  have l: "strnlen key_erhd HASHTABLE_KEY_SIZE < HASHTABLE_KEY_SIZE" by (simp add: strnlen_keys)
  show ?thesis
    using hashtable_set_get_round_trip [OF b chain_eric_heap f l, of 222] b chain_eric_heap f l
    by simp
qed

text \<open>
  C1 as stated fails when the allocation in set fails: set returns -1, the table is as it
  was, and get returns 0 for the key, not 222.
\<close>

theorem hashtable_set_get_malloc_fails:
  "hashtable_set True None eric_heap eric_table key_erhd 222 = Some (Inr (- 1, eric_heap, eric_table)) \<and>
   hashtable_get True eric_heap eric_table key_erhd = Some (Inr 0)"
proof -
  have b: "bucket eric_table (calculate_hash True key_erhd) = Inr (Some 1)"
    by (simp add: hash_erhd bucket_eric_table)
  have "hashtable_get True eric_heap eric_table key_erhd = Some (Inr 0)"
    unfolding hashtable_get_chain [OF b chain_eric_heap] no_match_erhd by simp
  then show ?thesis by (simp add: hashtable_set_malloc_fails)
qed

text \<open>
  C2 (the hash is always a bucket index in [0, N)): not so where plain \<^verbatim>\<open>char\<close> is
  signed. The key that is the one byte 0xFF has the \<^verbatim>\<open>char\<close> value -1, the sum is -1 and
  C's \<^verbatim>\<open>%\<close> leaves it -1, so \<^verbatim>\<open>ht->array[hash]\<close> is an access outside the array; the
  two bytes 0xC3 0xA9 (an e with acute accent in UTF-8) hash to -48. With an unsigned
  \<^verbatim>\<open>char\<close>, or for keys of 7-bit bytes, the index is in range (\<open>hash_unsigned_range\<close>,
  \<open>hash_ascii_range\<close>); it is never below -99 (\<open>hash_range_general\<close>).
\<close>

theorem calculate_hash_negative:
  "calculate_hash True [255] = - 1 \<and> bucket ht (calculate_hash True [255]) = Inl OutOfBounds \<and>
   calculate_hash True [195, 169] = - 48"
  by (simp add: calculate_hash_def hash_loop.simps char_at_def char_to_int_def
      signed_modulo_int_def bucket_def)

text \<open>
  C3, as amended: after any sequence of set calls with keys shorter than K (whose hashes
  are indices of the array), starting from a freshly created table, every bucket is a
  chain in which no two nodes hold the same key, and no key is stored in two buckets. The
  calls all return.
\<close>

theorem run_sets_keys_distinct:
  assumes "hashtable_create True = Some ht0"
    and "\<forall>(aux, key, v)\<in>set calls.
           strnlen key HASHTABLE_KEY_SIZE < HASHTABLE_KEY_SIZE \<and>
           0 \<le> calculate_hash sc key \<and> calculate_hash sc key < 100"
    and "distinct (allocs calls)" and "\<forall>a\<in>set (allocs calls). h0 a = None"
  shows "\<exists>h ht. run_sets sc calls h0 ht0 = Some (Inr (h, ht)) \<and>
           chains_distinct h ht \<and> buckets_share_no_key h ht"
proof -
  have "ht0 = empty_table" using assms(1) by (simp add: hashtable_create_empty)
  then have "table_inv sc h0 ht0 (\<lambda>i. [])" by (simp add: table_inv_empty)
  then obtain h ht cs where "run_sets sc calls h0 ht0 = Some (Inr (h, ht))" "table_inv sc h ht cs"
    using run_sets_inv [OF _ assms(2,3,4)] by blast
  then show ?thesis using table_inv_chains_distinct table_inv_buckets_share_no_key by blast
qed

theorem run_sets_keys_distinct_witness:
  "hashtable_create True = Some empty_table \<and> distinct (allocs main_calls) \<and>
   (\<exists>h ht. run_sets True main_calls Map.empty empty_table = Some (Inr (h, ht)) \<and>
      chains_distinct h ht \<and> buckets_share_no_key h ht)"
proof -
  have 1: "\<forall>(aux, key, v)\<in>set main_calls.
           strnlen key HASHTABLE_KEY_SIZE < HASHTABLE_KEY_SIZE \<and>
           0 \<le> calculate_hash True key \<and> calculate_hash True key < 100"
    by (simp add: main_calls_def strnlen_keys strnlen_john hash_eric hash_erhd hash_john)
  have 2: "distinct (allocs main_calls)" by (simp add: main_calls_def)
  have 3: "\<forall>a\<in>set (allocs main_calls). (Map.empty :: heap) a = None" by simp
  show ?thesis
    using run_sets_keys_distinct [OF hashtable_create_empty 1 2 3] hashtable_create_empty 2
    by blast
qed

text \<open>
  C3 as stated fails for a key of K bytes or more: \<^verbatim>\<open>hashtable_node_find_by_key\<close> refuses
  to look it up, so the second set of the 33-byte key appends a second node with the same
  32 bytes to the chain of bucket 4.
\<close>

theorem run_sets_duplicate_key:
  "run_sets True [(Some 1, long_key, 7), (Some 2, long_key, 9)] Map.empty empty_table =
     Some (Inr (dup_heap, long_table)) \<and>
   chain dup_heap (array long_table ! 4) [1, 2] \<and>
   key_of dup_heap 1 = key_of dup_heap 2 \<and>
   \<not> chains_distinct dup_heap long_table"
proof -
  have f: "long_heap 2 = None" by (simp add: long_heap_def)
  have l: "HASHTABLE_KEY_SIZE \<le> strnlen long_key HASHTABLE_KEY_SIZE \<or>
      List.find (matches long_heap long_key) [1] = None"
    by (simp add: strnlen_long_key)
  have "hashtable_set True (Some 2) long_heap long_table long_key 9 =
      Some (Inr (0, long_heap(2 \<mapsto> new_node long_key 9,
                              last [1] \<mapsto> (the (long_heap (last [1])))\<lparr>node_next := Some 2\<rparr>),
                 long_table))"
    using bucket_long_table chain_long_heap f l by (rule hashtable_set_append)
  moreover have "the (long_heap (last [1])) = new_node long_key 7" by (simp add: long_heap_def)
  ultimately have s: "hashtable_set True (Some 2) long_heap long_table long_key 9 =
      Some (Inr (0, dup_heap, long_table))"
    by (simp add: dup_heap_def)
  have 1: "run_sets True [(Some 1, long_key, 7), (Some 2, long_key, 9)] Map.empty empty_table =
     Some (Inr (dup_heap, long_table))"
    by (simp only: run_sets.simps hashtable_set_long_key s option.case sum.case prod.case)
  have 2: "chain dup_heap (array long_table ! 4) [1, 2]"
    by (simp add: dup_heap_def long_heap_def long_table_def empty_table_def new_node_def)
  have 3: "key_of dup_heap 1 = key_of dup_heap 2"
    by (simp add: dup_heap_def long_heap_def key_of_def new_node_def)
  have 4: "\<not> chains_distinct dup_heap long_table"
  proof
    assume "chains_distinct dup_heap long_table"
    then have "(4::nat) < HASHTABLE_NODE_COUNT \<longrightarrow>
        (\<exists>as. chain dup_heap (array long_table ! 4) as \<and> distinct (map (key_of dup_heap) as))"
      unfolding chains_distinct_def by (rule spec)
    then obtain as where as: "chain dup_heap (array long_table ! 4) as"
      "distinct (map (key_of dup_heap) as)"
      by auto
    from as(1) 2 have "as = [1, 2]" by (rule chain_unique)
    with as(2) 3 show False by simp
  qed
  show ?thesis using 1 2 3 4 by blast
qed

text \<open>
  C4, as amended: for a key shorter than K whose hash is an index of the array, when the
  first set stores the key (its allocation succeeds) and the block the second set
  allocates is there, both sets return 0, the get that follows returns the second value,
  and the key's bucket is the same chain of nodes after the second set as after the first.
  What the second set does when its own allocation fails is not part of the statement.
\<close>

theorem hashtable_set_overwrite:
  assumes "bucket ht (calculate_hash sc key) = Inr p"
    and "chain h p as" and "h n1 = None" and "h n2 = None" and "n1 \<noteq> n2"
    and "strnlen key HASHTABLE_KEY_SIZE < HASHTABLE_KEY_SIZE"
  shows "\<exists>h1 t1 h2 t2 p1 p2 as1 as2.
           hashtable_set sc (Some n1) h ht key v1 = Some (Inr (0, h1, t1)) \<and>
           hashtable_set sc (Some n2) h1 t1 key v2 = Some (Inr (0, h2, t2)) \<and>
           hashtable_get sc h2 t2 key = Some (Inr v2) \<and>
           bucket t1 (calculate_hash sc key) = Inr p1 \<and> chain h1 p1 as1 \<and>
           bucket t2 (calculate_hash sc key) = Inr p2 \<and> chain h2 p2 as2 \<and>
           as2 = as1 \<and> length as2 = length as1"
proof -
  obtain h1 t1 p1 as1 found where
    s1: "hashtable_set sc (Some n1) h ht key v1 = Some (Inr (0, h1, t1))"
    and b1: "bucket t1 (calculate_hash sc key) = Inr p1" and c1: "chain h1 p1 as1"
    and f1: "List.find (matches h1 key) as1 = Some found"
    and d1: "\<forall>a. a \<noteq> n1 \<longrightarrow> (h1 a = None) = (h a = None)"
    using hashtable_set_stores [OF assms(1,2,3,6), of v1] by blast
  have fresh: "h1 n2 = None" using d1 assms(4,5) by auto
  obtain h2 where
    s2: "hashtable_set sc (Some n2) h1 t1 key v2 = Some (Inr (0, h2, t1))"
    and c2: "chain h2 p1 as1" and f2: "List.find (matches h2 key) as1 = Some found"
    and v2: "node_value (the (h2 found)) = v2"
    using hashtable_set_found_post [OF b1 c1 fresh assms(6) f1, of v2] by blast
  have "hashtable_get sc h2 t1 key = Some (Inr v2)"
    using hashtable_get_chain [OF b1 c2] f2 v2 by simp
  with s1 s2 b1 c1 c2 show ?thesis by blast
qed

theorem hashtable_set_overwrite_witness:
  "bucket empty_table (calculate_hash True key_eric) = Inr None \<and>
   chain Map.empty None [] \<and> (Map.empty :: heap) 1 = None \<and> (Map.empty :: heap) 2 = None \<and>
   (1 :: addr) \<noteq> 2 \<and> strnlen key_eric HASHTABLE_KEY_SIZE < HASHTABLE_KEY_SIZE \<and>
   (\<exists>h1 t1 h2 t2 p1 p2 as1 as2.
      hashtable_set True (Some 1) Map.empty empty_table key_eric 111 = Some (Inr (0, h1, t1)) \<and>
      hashtable_set True (Some 2) h1 t1 key_eric 222 = Some (Inr (0, h2, t2)) \<and>
      hashtable_get True h2 t2 key_eric = Some (Inr 222) \<and>
      bucket t1 (calculate_hash True key_eric) = Inr p1 \<and> chain h1 p1 as1 \<and>
      bucket t2 (calculate_hash True key_eric) = Inr p2 \<and> chain h2 p2 as2 \<and>
      as2 = as1 \<and> length as2 = length as1)"
proof -
  have b: "bucket empty_table (calculate_hash True key_eric) = Inr None"
    by (simp add: hash_eric bucket_empty_table)
  have c: "chain Map.empty None []" by simp
  have f1: "(Map.empty :: heap) 1 = None" and f2: "(Map.empty :: heap) 2 = None" by simp_all
  have n: "(1 :: addr) \<noteq> 2" by simp
  have l: "strnlen key_eric HASHTABLE_KEY_SIZE < HASHTABLE_KEY_SIZE" by (simp add: strnlen_keys)
  show ?thesis
    using hashtable_set_overwrite [OF b c f1 f2 n l, of 111 222] b l
    by simp
qed

text \<open>
  C4 as stated fails when the allocation in the first set fails: that set returns -1 and
  stores nothing, so the key's bucket is still empty after it; the second set is then
  the one that adds the node, and the chain has one node after it, none before.
\<close>

theorem hashtable_set_overwrite_first_malloc_fails:
  "hashtable_set True None Map.empty empty_table key_eric 222 =
     Some (Inr (- 1, Map.empty, empty_table)) \<and>
   bucket empty_table (calculate_hash True key_eric) = Inr None \<and>
   chain Map.empty None [] \<and>
   hashtable_set True (Some 1) Map.empty empty_table key_eric 111 =
     Some (Inr (0, eric_heap, eric_table)) \<and>
   bucket eric_table (calculate_hash True key_eric) = Inr (Some 1) \<and>
   chain eric_heap (Some 1) [1] \<and>
   length [1 :: addr] \<noteq> length ([] :: addr list)"
proof -
  have 1: "hashtable_set True None Map.empty empty_table key_eric 222 =
     Some (Inr (- 1, Map.empty, empty_table))"
    by (rule hashtable_set_malloc_fails)
  have 2: "bucket empty_table (calculate_hash True key_eric) = Inr None"
    by (simp add: hash_eric bucket_empty_table)
  have 3: "chain Map.empty None []" by simp
  have 4: "bucket eric_table (calculate_hash True key_eric) = Inr (Some 1)"
    by (simp add: hash_eric bucket_eric_table)
  have 5: "length [1 :: addr] \<noteq> length ([] :: addr list)" by simp
  show ?thesis using 1 2 3 hashtable_set_eric [of True] 4 chain_eric_heap 5 by blast
qed

text \<open>
  C5 (set allocates no node when the key is already present): \<^verbatim>\<open>hashtable_set\<close> calls
  \<^verbatim>\<open>hashtable_node_create\<close> before it looks the key up. The second set of "eric"
  overwrites the value in node 1 and leaves the chain as it is, and node 2 has been
  allocated all the same; nothing points to it.
\<close>

theorem hashtable_set_leaks_node:
  "hashtable_set True (Some 1) Map.empty empty_table key_eric 111 = Some (Inr (0, eric_heap, eric_table)) \<and>
   hashtable_set True (Some 2) eric_heap eric_table key_eric 222 = Some (Inr (0, leak_heap, eric_table)) \<and>
   eric_heap 2 = None \<and> leak_heap 2 = Some (new_node key_eric 222) \<and>
   chain leak_heap (array eric_table ! 19) [1] \<and>
   array eric_table = (replicate HASHTABLE_NODE_COUNT None)[19 := Some 1]"
proof -
  have b: "bucket eric_table (calculate_hash True key_eric) = Inr (Some 1)"
    by (simp add: hash_eric bucket_eric_table)
  have f: "eric_heap 2 = None" by (simp add: eric_heap_def)
  have l: "strnlen key_eric HASHTABLE_KEY_SIZE < HASHTABLE_KEY_SIZE" by (simp add: strnlen_keys)
  have "hashtable_set True (Some 2) eric_heap eric_table key_eric 222 =
          Some (Inr (0, eric_heap(2 \<mapsto> new_node key_eric 222,
                                   1 \<mapsto> (the (eric_heap 1))\<lparr>node_value := 222\<rparr>), eric_table))"
    using b chain_eric_heap f l match_eric by (rule hashtable_set_found)
  moreover have "the (eric_heap 1) = new_node key_eric 111" by (simp add: eric_heap_def)
  ultimately have s: "hashtable_set True (Some 2) eric_heap eric_table key_eric 222 =
      Some (Inr (0, leak_heap, eric_table))"
    by (simp add: leak_heap_def)
  have c: "chain leak_heap (array eric_table ! 19) [1]"
    by (simp add: leak_heap_def eric_table_def empty_table_def new_node_def)
  have a: "array eric_table = (replicate HASHTABLE_NODE_COUNT None)[19 := Some 1]"
    by (simp add: eric_table_def empty_table_def)
  have n: "leak_heap 2 = Some (new_node key_eric 222)" by (simp add: leak_heap_def)
  show ?thesis using hashtable_set_eric [of True] s f n c a by blast
qed

text \<open>
  C6, as amended: a successful create stores the first min(length, K) bytes of the key
  followed by zero bytes up to exactly K bytes, so the stored key has a terminator
  exactly when the key is shorter than K; the value is the given value and the successor
  link is none.
\<close>

theorem hashtable_node_create_stores:
  "hashtable_node_create (Some a) key v h =
     (Some a, h(a \<mapsto> \<lparr>node_next = None,
                        node_key = key_prefix key @ replicate (HASHTABLE_KEY_SIZE - strlen key) 0,
                        node_value = v\<rparr>)) \<and>
   length (key_prefix key @ replicate (HASHTABLE_KEY_SIZE - strlen key) 0) = HASHTABLE_KEY_SIZE \<and>
   (0 \<in> set (key_prefix key @ replicate (HASHTABLE_KEY_SIZE - strlen key) 0)) =
     (strlen key < HASHTABLE_KEY_SIZE)"
proof -
  have "0 \<notin> set (takeWhile (\<lambda>c. c \<noteq> 0) key)"
    by (auto dest: set_takeWhileD)
  then have z: "0 \<notin> set (key_prefix key)"
    unfolding key_prefix_eq by (auto dest: in_set_takeD)
  have l: "length (key_prefix key) = min (strlen key) HASHTABLE_KEY_SIZE"
    unfolding key_prefix_eq by (simp add: strlen_def min.commute)
  show ?thesis using z l
    by (auto simp: hashtable_node_create_def strncpy_eq key_prefix_eq)
qed

text \<open>
  C6 as stated (at most K - 1 bytes of the key, then a terminator) fails for a key of 32
  bytes: all 32 are stored and no byte of the buffer is a terminator.
\<close>

theorem hashtable_node_create_unterminated:
  "node_key (the (snd (hashtable_node_create (Some 1) (replicate 32 97) 7 Map.empty) 1)) =
     replicate 32 97 \<and>
   length (node_key (the (snd (hashtable_node_create (Some 1) (replicate 32 97) 7 Map.empty) 1))) =
     HASHTABLE_KEY_SIZE \<and>
   0 \<notin> set (node_key (the (snd (hashtable_node_create (Some 1) (replicate 32 97) 7 Map.empty) 1)))"
  by (simp add: hashtable_node_create_def strncpy_eq strlen_def)

text \<open>
  C7 (on a freshly created table get returns 0 for every key): where plain \<^verbatim>\<open>char\<close> is
  signed, the key that is the one byte 0xFF hashes to -1 and get reads \<^verbatim>\<open>ht->array[-1]\<close>.
  For the keys whose hash is an index of the array get returns 0
  (\<open>hashtable_get_empty_table\<close>).
\<close>

theorem hashtable_get_out_of_bounds:
  "hashtable_create True = Some empty_table \<and>
   hashtable_get True h empty_table [255] = Some (Inl OutOfBounds)"
  by (simp add: hashtable_create_empty hashtable_get_def bucket_def calculate_hash_def
      hash_loop.simps char_at_def char_to_int_def signed_modulo_int_def)

text \<open>
  C8 (the hash depends only on the first min(length, K) bytes; keys whose first
  min(length, K) bytes sum to the same total hash to the same bucket): not so where plain
  \<^verbatim>\<open>char\<close> is signed. The bytes 0x80 0x7F 0x7F 0x04 and 0x7F 0x7F 0x7F 0x05 both total 386;
  the code adds 0x80 as -128, so the first key's sum is 130 and its hash 30, and the
  second key's hash is 86. With an unsigned \<^verbatim>\<open>char\<close> both hash to 86
  (\<open>calculate_hash_unsigned_total\<close>). That the hash depends only on the first
  min(length, K) bytes, and that permutations of them collide, holds either way
  (\<open>calculate_hash_prefix_sum\<close>).
\<close>

theorem calculate_hash_equal_totals_differ:
  "sum_list (map uint (key_prefix [128, 127, 127, 4])) = 386 \<and>
   sum_list (map uint (key_prefix [127, 127, 127, 5])) = 386 \<and>
   calculate_hash True [128, 127, 127, 4] = 30 \<and>
   calculate_hash True [127, 127, 127, 5] = 86 \<and>
   calculate_hash False [128, 127, 127, 4] = 86 \<and>
   calculate_hash False [127, 127, 127, 5] = 86"
  by (simp add: calculate_hash_eq key_prefix_totals char_to_int_def signed_modulo_int_def)

text \<open>
  C9 (after insertAfter the new node's successor link is none in every branch): the
  branch for a parent without successor returns before \<^verbatim>\<open>child->next = NULL\<close>. Inserted
  after node 1, node 2 points to node 3 before the call and after it. The other branch
  does reset the link: inserted after node 2, node 4 points to node 1 before the call and
  to nothing after it.
\<close>

theorem hashtable_node_insert_keeps_child_next:
  "hashtable_node_insert insert_heap (Some 1) (Some 2) = Some (Inr insert_heap_after) \<and>
   map_option node_next (insert_heap 2) = Some (Some 3) \<and>
   map_option node_next (insert_heap_after 2) = Some (Some 3) \<and>
   hashtable_node_insert insert_heap (Some 2) (Some 4) = Some (Inr insert_heap_walked) \<and>
   map_option node_next (insert_heap 4) = Some (Some 1) \<and>
   map_option node_next (insert_heap_walked 4) = Some None"
proof -
  have "chain insert_heap (Some 3) [3]" by (simp add: insert_heap_def)
  then have "insert_loop insert_heap 3 = Some (Inr (last [3]))" by (rule insert_loop_chain)
  then have "hashtable_node_insert insert_heap (Some 2) (Some 4) = Some (Inr insert_heap_walked)"
    by (simp add: hashtable_node_insert_def store_def insert_heap_def insert_heap_walked_def)
  then show ?thesis
    by (simp add: hashtable_node_insert_def insert_heap_def insert_heap_after_def
        insert_heap_walked_def)
qed

text \<open>
  C10: \<^verbatim>\<open>hashtable_node_find_by_key\<close> answers not found for every key of K bytes or more,
  whatever the chain holds, and \<^verbatim>\<open>hashtable_get\<close> has no such check: after a set of a key
  of 33 bytes the node holds its first 32 bytes, and get with that key returns the node's
  value.
\<close>

theorem hashtable_get_long_key:
  "(HASHTABLE_KEY_SIZE \<le> strnlen key HASHTABLE_KEY_SIZE \<longrightarrow>
      hashtable_node_find_by_key h node key = Some (Inr None)) \<and>
   HASHTABLE_KEY_SIZE \<le> strnlen long_key HASHTABLE_KEY_SIZE \<and>
   hashtable_set sc (Some 1) Map.empty empty_table long_key 7 = Some (Inr (0, long_heap, long_table)) \<and>
   map_option node_key (long_heap 1) = Some (take HASHTABLE_KEY_SIZE long_key) \<and>
   hashtable_get sc long_heap long_table long_key = Some (Inr 7)"
proof -
  have 1: "HASHTABLE_KEY_SIZE \<le> strnlen key HASHTABLE_KEY_SIZE \<longrightarrow>
      hashtable_node_find_by_key h node key = Some (Inr None)"
    by (simp add: hashtable_node_find_by_key_def)
  have 2: "HASHTABLE_KEY_SIZE \<le> strnlen long_key HASHTABLE_KEY_SIZE"
    by (simp add: strnlen_long_key)
  have 3: "hashtable_set sc (Some 1) Map.empty empty_table long_key 7 =
      Some (Inr (0, long_heap, long_table))"
    by (rule hashtable_set_long_key)
  have 4: "map_option node_key (long_heap 1) = Some (take HASHTABLE_KEY_SIZE long_key)"
    by (simp add: long_heap_def new_node_def strncpy_eq strlen_def long_key_def)
  note b = bucket_long_table [of sc] and c = chain_long_heap
  have "matches long_heap long_key 1" by (rule matches_new_node) (simp add: long_heap_def)
  then have "List.find (matches long_heap long_key) [1] = Some 1" by simp
  then have 5: "hashtable_get sc long_heap long_table long_key = Some (Inr 7)"
    unfolding hashtable_get_chain [OF b c] by (simp add: long_heap_def new_node_def)
  show ?thesis using 1 2 3 4 5 by blast
qed

theorem hashtable_get_long_key_witness:
  "HASHTABLE_KEY_SIZE \<le> strnlen long_key HASHTABLE_KEY_SIZE \<and>
   hashtable_node_find_by_key long_heap (Some 1) long_key = Some (Inr None) \<and>
   hashtable_get True long_heap long_table long_key = Some (Inr 7)"
  using hashtable_get_long_key [of long_key long_heap "Some 1" True] by blast

end
